theory Spec2Isabelle
  imports Main
begin

unbundle bit_operations_syntax

section \<open>ACL rule validation (acl\_management.py)\<close>

text \<open>
  A shallow embedding of \<^verbatim>\<open>check_overlap\<close>, \<^verbatim>\<open>validate_acl_rules\<close>,
  \<^verbatim>\<open>build_acl_command\<close> and \<^verbatim>\<open>configure_acls\<close>. Python exceptions are values
  of the type \<open>exn\<close>; a function that logs returns the log lines it wrote together
  with its outcome, so that what was written before an exception is still visible.
\<close>

subsection \<open>The part of Python's ipaddress module that check\_overlap calls\<close>

text \<open>
  The library is modelled as it is in CPython 3.11, for the string arguments the
  program passes. Integers are Python's unbounded ints. A parser returns \<open>None\<close> where the library
  raises \<^verbatim>\<open>AddressValueError\<close> or \<^verbatim>\<open>NetmaskValueError\<close> (both are subclasses of
  \<^verbatim>\<open>ValueError\<close>, and every caller below treats them alike).
\<close>

text \<open>\<^verbatim>\<open>str.split(sep)\<close> for a one-character separator.\<close>

fun split_on :: "char \<Rightarrow> string \<Rightarrow> string list" where
  "split_on c [] = [[]]"
| "split_on c (x # xs) =
     (if x = c then [] # split_on c xs
      else (case split_on c xs of [] \<Rightarrow> [[x]] | p # ps \<Rightarrow> (x # p) # ps))"

text \<open>\<^verbatim>\<open>s.isascii() and s.isdigit()\<close>; the empty string is not a digit string.\<close>

definition is_ascii_digit :: "char \<Rightarrow> bool" where
  "is_ascii_digit c = (48 \<le> (of_char c :: nat) \<and> (of_char c :: nat) \<le> 57)"

definition isdigit :: "string \<Rightarrow> bool" where
  "isdigit s = (s \<noteq> [] \<and> list_all is_ascii_digit s)"

text \<open>\<^verbatim>\<open>int(s, 10)\<close> on a string of ASCII digits.\<close>

definition int_of_digits :: "string \<Rightarrow> int" where
  "int_of_digits s = foldl (\<lambda>n c. 10 * n + (int (of_char c) - 48)) 0 s"

definition IPV4LENGTH :: nat where "IPV4LENGTH = 32"
definition IPV6LENGTH :: nat where "IPV6LENGTH = 128"

text \<open>\<^verbatim>\<open>_ALL_ONES\<close> of the class with the given \<^verbatim>\<open>_max_prefixlen\<close>.\<close>

definition ALL_ONES :: "nat \<Rightarrow> int" where
  "ALL_ONES max_prefixlen = 2 ^ max_prefixlen - 1"

text \<open>\<^verbatim>\<open>_BaseV4._parse_octet\<close>.\<close>

definition parse_octet :: "string \<Rightarrow> int option" where
  "parse_octet octet_str =
     (if octet_str = [] then None
      else if \<not> isdigit octet_str then None
      else if length octet_str > 3 then None
      else if octet_str \<noteq> ''0'' \<and> hd octet_str = CHR ''0'' then None
      else (let octet_int = int_of_digits octet_str
            in if octet_int > 255 then None else Some octet_int))"

text \<open>All results of a list of parses, or \<open>None\<close> as soon as one of them fails.\<close>

fun sequence :: "'a option list \<Rightarrow> 'a list option" where
  "sequence [] = Some []"
| "sequence (None # xs) = None"
| "sequence (Some x # xs) = (case sequence xs of None \<Rightarrow> None | Some ys \<Rightarrow> Some (x # ys))"

text \<open>\<^verbatim>\<open>_BaseV4._ip_int_from_string\<close>; \<^verbatim>\<open>int.from_bytes(..., 'big')\<close> is the fold.\<close>

definition ip_int_from_string_v4 :: "string \<Rightarrow> int option" where
  "ip_int_from_string_v4 ip_str =
     (if ip_str = [] then None
      else (let octets = split_on CHR ''.'' ip_str
            in if length octets \<noteq> 4 then None
               else (case sequence (map parse_octet octets) of
                       None \<Rightarrow> None
                     | Some bs \<Rightarrow> Some (foldl (\<lambda>n b. 256 * n + b) 0 bs))))"

text \<open>
  An address object: its \<^verbatim>\<open>_version\<close>, its \<^verbatim>\<open>_ip\<close> and (version 6 only) its
  \<^verbatim>\<open>_scope_id\<close>.
\<close>

datatype address = Address (version: nat) (ip: int) (scope_id: "string option")

text \<open>\<^verbatim>\<open>IPv4Address(address)\<close> for a string argument.\<close>

definition IPv4Address :: "string \<Rightarrow> address option" where
  "IPv4Address addr_str =
     (if CHR ''/'' \<in> set addr_str then None
      else map_option (\<lambda>i. Address 4 i None) (ip_int_from_string_v4 addr_str))"

text \<open>\<^verbatim>\<open>'%x' % n\<close> for \<open>n \<ge> 0\<close>.\<close>

definition hex_digit :: "nat \<Rightarrow> char" where
  "hex_digit d = ''0123456789abcdef'' ! d"

fun hex_str :: "nat \<Rightarrow> string" where
  "hex_str n = (if n < 16 then [hex_digit n] else hex_str (n div 16) @ [hex_digit (n mod 16)])"

text \<open>\<^verbatim>\<open>_BaseV6._parse_hextet\<close>; \<^verbatim>\<open>int('', 16)\<close> raises \<^verbatim>\<open>ValueError\<close>.\<close>

definition hex_value :: "char \<Rightarrow> int option" where
  "hex_value c =
     (let n = (of_char c :: nat)
      in if 48 \<le> n \<and> n \<le> 57 then Some (int n - 48)
         else if 65 \<le> n \<and> n \<le> 70 then Some (int n - 55)
         else if 97 \<le> n \<and> n \<le> 102 then Some (int n - 87)
         else None)"

definition parse_hextet :: "string \<Rightarrow> int option" where
  "parse_hextet hextet_str =
     (case sequence (map hex_value hextet_str) of
        None \<Rightarrow> None
      | Some ds \<Rightarrow>
          if length hextet_str > 4 then None
          else if hextet_str = [] then None
          else Some (foldl (\<lambda>n d. 16 * n + d) 0 ds))"

text \<open>\<^verbatim>\<open>_BaseV6._ip_int_from_string\<close>.\<close>

definition ip_int_from_string_v6 :: "string \<Rightarrow> int option" where
  "ip_int_from_string_v6 ip_str =
     (if ip_str = [] then None
      else (let parts0 = split_on CHR '':'' ip_str
       in if length parts0 < 3 then None
       else (case (if CHR ''.'' \<in> set (last parts0)
                   then (case IPv4Address (last parts0) of
                           None \<Rightarrow> None
                         | Some v4 \<Rightarrow>
                             Some (butlast parts0 @
                                   [hex_str (nat (drop_bit 16 (ip v4) AND 0xFFFF)),
                                    hex_str (nat (ip v4 AND 0xFFFF))]))
                   else Some parts0) of
               None \<Rightarrow> None
             | Some parts \<Rightarrow>
        if length parts > 9 then None
        else (let empties = filter (\<lambda>i. parts ! i = []) [1 ..< length parts - 1]
         in if length empties > 1 then None
         else (case (case empties of
                 skip_index # _ \<Rightarrow>
                   (let parts_hi0 = skip_index;
                        parts_lo0 = length parts - skip_index - 1
                    in if hd parts = [] \<and> parts_hi0 - 1 \<noteq> 0 then None
                       else (let parts_hi = (if hd parts = [] then parts_hi0 - 1 else parts_hi0)
                        in if last parts = [] \<and> parts_lo0 - 1 \<noteq> 0 then None
                           else (let parts_lo = (if last parts = [] then parts_lo0 - 1 else parts_lo0)
                            in if int 8 - int (parts_hi + parts_lo) < 1 then None
                               else Some (parts_hi, parts_lo, 8 - (parts_hi + parts_lo)))))
               | [] \<Rightarrow>
                   if length parts \<noteq> 8 then None
                   else if hd parts = [] then None
                   else if last parts = [] then None
                   else Some (length parts, 0, 0)) of
             None \<Rightarrow> None
           | Some (parts_hi, parts_lo, parts_skipped) \<Rightarrow>
               (case sequence (map parse_hextet (take parts_hi parts)) of
                  None \<Rightarrow> None
                | Some his \<Rightarrow>
                    (case sequence (map parse_hextet (drop (length parts - parts_lo) parts)) of
                       None \<Rightarrow> None
                     | Some los \<Rightarrow>
                         Some (foldl (\<lambda>n h. push_bit 16 n OR h)
                                 (push_bit (16 * parts_skipped)
                                    (foldl (\<lambda>n h. push_bit 16 n OR h) 0 his)) los))))))))"

text \<open>\<^verbatim>\<open>_BaseV6._split_scope_id\<close>: \<^verbatim>\<open>ip_str.partition('%')\<close> and its checks.\<close>

definition split_scope_id :: "string \<Rightarrow> (string \<times> string option) option" where
  "split_scope_id ip_str =
     (let addr = takeWhile (\<lambda>c. c \<noteq> CHR ''%'') ip_str;
          rest = dropWhile (\<lambda>c. c \<noteq> CHR ''%'') ip_str
      in if rest = [] then Some (addr, None)
         else if tl rest = [] \<or> CHR ''%'' \<in> set (tl rest) then None
         else Some (addr, Some (tl rest)))"

text \<open>\<^verbatim>\<open>IPv6Address(address)\<close> for a string argument.\<close>

definition IPv6Address :: "string \<Rightarrow> address option" where
  "IPv6Address addr_str =
     (if CHR ''/'' \<in> set addr_str then None
      else (case split_scope_id addr_str of
              None \<Rightarrow> None
            | Some (a, scope) \<Rightarrow>
                map_option (\<lambda>i. Address 6 i scope) (ip_int_from_string_v6 a)))"

text \<open>\<^verbatim>\<open>ipaddress.ip_address\<close>: \<open>None\<close> is its final \<^verbatim>\<open>ValueError\<close>.\<close>

definition ip_address :: "string \<Rightarrow> address option" where
  "ip_address a =
     (case IPv4Address a of
        Some x \<Rightarrow> Some x
      | None \<Rightarrow> IPv6Address a)"

subsection \<open>Networks\<close>

text \<open>
  A network object: its \<^verbatim>\<open>_version\<close>, the \<^verbatim>\<open>_ip\<close> of its \<^verbatim>\<open>network_address\<close> and
  of its \<^verbatim>\<open>netmask\<close>, and its \<^verbatim>\<open>_prefixlen\<close>.
\<close>

datatype network =
  Network (net_version: nat) (network_address: int) (netmask: int) (prefixlen: nat)

definition max_prefixlen :: "nat \<Rightarrow> nat" where
  "max_prefixlen v = (if v = 4 then IPV4LENGTH else IPV6LENGTH)"

text \<open>\<^verbatim>\<open>int.bit_length()\<close> of a non-negative integer, given as a natural number.\<close>

fun bit_length :: "nat \<Rightarrow> nat" where
  "bit_length n = (if n = 0 then 0 else Suc (bit_length (n div 2)))"

text \<open>\<^verbatim>\<open>_count_righthand_zero_bits\<close>.\<close>

definition count_righthand_zero_bits :: "int \<Rightarrow> nat \<Rightarrow> nat" where
  "count_righthand_zero_bits number bits =
     (if number = 0 then bits
      else min bits (bit_length (nat (NOT number AND (number - 1)))))"

text \<open>\<^verbatim>\<open>_ip_int_from_prefix\<close>.\<close>

definition ip_int_from_prefix :: "nat \<Rightarrow> nat \<Rightarrow> int" where
  "ip_int_from_prefix maxlen plen = ALL_ONES maxlen XOR drop_bit plen (ALL_ONES maxlen)"

text \<open>\<^verbatim>\<open>_prefix_from_ip_int\<close>; \<open>None\<close> is its \<^verbatim>\<open>ValueError\<close>.\<close>

definition prefix_from_ip_int :: "nat \<Rightarrow> int \<Rightarrow> nat option" where
  "prefix_from_ip_int maxlen ip_int =
     (let trailing_zeroes = count_righthand_zero_bits ip_int maxlen;
          plen = maxlen - trailing_zeroes;
          leading_ones = drop_bit trailing_zeroes ip_int;
          all_ones = push_bit plen 1 - 1
      in if leading_ones \<noteq> all_ones then None else Some plen)"

text \<open>\<^verbatim>\<open>_prefix_from_prefix_string\<close>.\<close>

definition prefix_from_prefix_string :: "nat \<Rightarrow> string \<Rightarrow> nat option" where
  "prefix_from_prefix_string maxlen prefixlen_str =
     (if \<not> isdigit prefixlen_str then None
      else (let plen = int_of_digits prefixlen_str
            in if \<not> (0 \<le> plen \<and> plen \<le> int maxlen) then None else Some (nat plen)))"

text \<open>\<^verbatim>\<open>_prefix_from_ip_string\<close> (used by version 4 only).\<close>

definition prefix_from_ip_string :: "string \<Rightarrow> nat option" where
  "prefix_from_ip_string ip_str =
     (case ip_int_from_string_v4 ip_str of
        None \<Rightarrow> None
      | Some ip_int \<Rightarrow>
          (case prefix_from_ip_int IPV4LENGTH ip_int of
             Some p \<Rightarrow> Some p
           | None \<Rightarrow> prefix_from_ip_int IPV4LENGTH (ip_int XOR ALL_ONES IPV4LENGTH)))"

text \<open>
  \<^verbatim>\<open>_make_netmask\<close> of each version, for the mask text after the \<^verbatim>\<open>/\<close>; the result is
  the netmask's integer and the prefix length. The cache does not change the result.
\<close>

definition make_netmask_v4 :: "string \<Rightarrow> (int \<times> nat) option" where
  "make_netmask_v4 arg =
     (case (case prefix_from_prefix_string IPV4LENGTH arg of
              Some p \<Rightarrow> Some p
            | None \<Rightarrow> prefix_from_ip_string arg) of
        None \<Rightarrow> None
      | Some p \<Rightarrow> Some (ip_int_from_prefix IPV4LENGTH p, p))"

definition make_netmask_v6 :: "string \<Rightarrow> (int \<times> nat) option" where
  "make_netmask_v6 arg =
     (case prefix_from_prefix_string IPV6LENGTH arg of
        None \<Rightarrow> None
      | Some p \<Rightarrow> Some (ip_int_from_prefix IPV6LENGTH p, p))"

text \<open>
  \<^verbatim>\<open>_split_addr_prefix\<close> on a string: \<open>None\<close> when there is more than one \<^verbatim>\<open>/\<close>;
  a missing mask stands for the integer \<^verbatim>\<open>_max_prefixlen\<close>.
\<close>

definition split_addr_prefix :: "string \<Rightarrow> (string \<times> string option) option" where
  "split_addr_prefix a =
     (let addr = split_on CHR ''/'' a
      in if length addr > 2 then None
         else if length addr > 1 then Some (addr ! 0, Some (addr ! 1))
         else Some (addr ! 0, None))"

text \<open>\<^verbatim>\<open>IPv4Network(address, strict=False)\<close> and \<^verbatim>\<open>IPv6Network(address, strict=False)\<close>.\<close>

definition IPv4Network :: "string \<Rightarrow> network option" where
  "IPv4Network a =
     (case split_addr_prefix a of
        None \<Rightarrow> None
      | Some (addr, mask_arg) \<Rightarrow>
          (case IPv4Address addr of
             None \<Rightarrow> None
           | Some na \<Rightarrow>
               (case (case mask_arg of
                        None \<Rightarrow> Some (ip_int_from_prefix IPV4LENGTH IPV4LENGTH, IPV4LENGTH)
                      | Some m \<Rightarrow> make_netmask_v4 m) of
                  None \<Rightarrow> None
                | Some (nm, p) \<Rightarrow>
                    (let packed = ip na
                     in if packed AND nm \<noteq> packed then Some (Network 4 (packed AND nm) nm p)
                        else Some (Network 4 packed nm p)))))"

definition IPv6Network :: "string \<Rightarrow> network option" where
  "IPv6Network a =
     (case split_addr_prefix a of
        None \<Rightarrow> None
      | Some (addr, mask_arg) \<Rightarrow>
          (case IPv6Address addr of
             None \<Rightarrow> None
           | Some na \<Rightarrow>
               (case (case mask_arg of
                        None \<Rightarrow> Some (ip_int_from_prefix IPV6LENGTH IPV6LENGTH, IPV6LENGTH)
                      | Some m \<Rightarrow> make_netmask_v6 m) of
                  None \<Rightarrow> None
                | Some (nm, p) \<Rightarrow>
                    (let packed = ip na
                     in if packed AND nm \<noteq> packed then Some (Network 6 (packed AND nm) nm p)
                        else Some (Network 6 packed nm p)))))"

text \<open>\<^verbatim>\<open>ipaddress.ip_network(address, strict=False)\<close>: \<open>None\<close> is its final \<^verbatim>\<open>ValueError\<close>.\<close>

definition ip_network :: "string \<Rightarrow> network option" where
  "ip_network a =
     (case IPv4Network a of
        Some n \<Rightarrow> Some n
      | None \<Rightarrow> IPv6Network a)"

text \<open>\<^verbatim>\<open>hostmask\<close> and \<^verbatim>\<open>broadcast_address\<close> of a network, as integers.\<close>

definition hostmask :: "network \<Rightarrow> int" where
  "hostmask n = netmask n XOR ALL_ONES (max_prefixlen (net_version n))"

definition broadcast_address :: "network \<Rightarrow> int" where
  "broadcast_address n = network_address n OR hostmask n"

text \<open>
  \<^verbatim>\<open>_BaseNetwork.__contains__\<close> for an address operand, given by its version and its
  integer.
\<close>

definition contains :: "network \<Rightarrow> nat \<Rightarrow> int \<Rightarrow> bool" where
  "contains self v other_ip =
     (if net_version self \<noteq> v then False
      else other_ip AND netmask self = network_address self)"

subsection \<open>check\_overlap\<close>

text \<open>The exceptions that leave the functions below.\<close>

datatype exn = KeyError string | AttributeError | TypeError

text \<open>The value of \<^verbatim>\<open>net1\<close> and \<^verbatim>\<open>net2\<close>: an address object or a network object.\<close>

datatype ip_object = Addr address | Net network

text \<open>
  \<^verbatim>\<open>x in other\<close> for an address \<open>x\<close>: a network answers with \<^verbatim>\<open>__contains__\<close>; an
  address object has neither \<^verbatim>\<open>__contains__\<close> nor \<^verbatim>\<open>__iter__\<close>, so Python raises
  \<^verbatim>\<open>TypeError\<close>.
\<close>

definition py_in :: "nat \<Rightarrow> int \<Rightarrow> ip_object \<Rightarrow> exn + bool" where
  "py_in v x other = (case other of Addr _ \<Rightarrow> Inl TypeError | Net n \<Rightarrow> Inr (contains n v x))"

text \<open>
  \<^verbatim>\<open>net1.overlaps(net2)\<close>. Only networks have the method \<^verbatim>\<open>overlaps\<close>: on an address
  object the attribute lookup raises \<^verbatim>\<open>AttributeError\<close>. Inside the method the four
  tests run left to right, and the first one already fails when \<open>other\<close> is an address.
\<close>

definition overlaps :: "ip_object \<Rightarrow> ip_object \<Rightarrow> exn + bool" where
  "overlaps net1 net2 =
     (case net1 of
        Addr _ \<Rightarrow> Inl AttributeError
      | Net self \<Rightarrow>
          (case py_in (net_version self) (network_address self) net2 of
             Inl e \<Rightarrow> Inl e
           | Inr c1 \<Rightarrow>
               if c1 then Inr True
               else (case py_in (net_version self) (broadcast_address self) net2 of
                       Inl e \<Rightarrow> Inl e
                     | Inr c2 \<Rightarrow>
                         if c2 then Inr True
                         else (case net2 of
                                 Addr _ \<Rightarrow> Inl AttributeError
                               | Net other \<Rightarrow>
                                   Inr (contains self (net_version other) (network_address other)
                                        \<or> contains self (net_version other)
                                             (broadcast_address other))))))"

text \<open>
  A rule is a dictionary read from JSON. Each key of the data model is a field that is
  \<open>None\<close> when the key is absent; a present value has the type the data model gives it.
\<close>

record rule =
  acl_number :: "int option"
  action :: "string option"
  protocol :: "string option"
  source :: "string option"
  destination :: "string option"
  port :: "int option"

text \<open>
  A line written to the log by \<^verbatim>\<open>logging.error\<close> or \<^verbatim>\<open>logging.info\<close>, with the
  values its message is formatted from.
\<close>

datatype log_entry =
    IPAddressError string
  | MissingFields rule
  | PermissionDenied
  | DuplicateAcl int
  | Conflict rule rule
  | Overlapping rule rule
  | ValidationFailed
  | BackedUp string
  | BackupFailed string
  | Applied string
  | ConfigOutput string
  | ConfigureFailed string

text \<open>What a function wrote to the log, and how it ended.\<close>

type_synonym 'a result = "log_entry list \<times> (exn + 'a)"

text \<open>The conditional expression that builds \<^verbatim>\<open>net1\<close> and \<^verbatim>\<open>net2\<close>.\<close>

definition parse_source :: "string \<Rightarrow> ip_object option" where
  "parse_source s =
     (if CHR ''/'' \<in> set s then map_option Net (ip_network s)
      else map_option Addr (ip_address s))"

definition check_overlap :: "string \<Rightarrow> string \<Rightarrow> string \<Rightarrow> string \<Rightarrow> bool result" where
  "check_overlap source1 dest1 source2 dest2 =
     (case parse_source source1 of
        None \<Rightarrow> ([IPAddressError source1], Inr False)
      | Some net1 \<Rightarrow>
          (case parse_source source2 of
             None \<Rightarrow> ([IPAddressError source2], Inr False)
           | Some net2 \<Rightarrow> ([], overlaps net1 net2)))"

subsection \<open>validate\_acl\_rules\<close>

text \<open>\<^verbatim>\<open>d[key]\<close> on a dictionary: \<^verbatim>\<open>KeyError\<close> when the key is absent.\<close>

definition getitem :: "string \<Rightarrow> 'a option \<Rightarrow> exn + 'a" where
  "getitem key field = (case field of None \<Rightarrow> Inl (KeyError key) | Some v \<Rightarrow> Inr v)"

text \<open>The local variables of \<^verbatim>\<open>validate_acl_rules\<close> that the first loop updates.\<close>

record scan_state =
  valid :: bool
  seen_acls :: "int set"
  permit_rules :: "rule list"
  deny_rules :: "rule list"

definition initial_state :: scan_state where
  "initial_state = \<lparr>valid = True, seen_acls = {}, permit_rules = [], deny_rules = []\<rparr>"

text \<open>
  One iteration of the first loop, under the global \<^verbatim>\<open>current_role\<close> (\<open>None\<close> before
  authentication): the new state and the lines logged.
\<close>

definition scan_rule :: "string option \<Rightarrow> scan_state \<Rightarrow> rule \<Rightarrow> scan_state \<times> log_entry list" where
  "scan_rule current_role st r =
     (case (acl_number r, action r, protocol r) of
        (Some n, Some a, Some _) \<Rightarrow>
          if current_role = Some ''read-only'' \<and> a = ''deny''
          then (st\<lparr>valid := False\<rparr>, [PermissionDenied])
          else (let (st1, l) =
                      (if n \<in> seen_acls st then (st\<lparr>valid := False\<rparr>, [DuplicateAcl n])
                       else (st\<lparr>seen_acls := insert n (seen_acls st)\<rparr>, []));
                    st2 =
                      (if a = ''permit'' then st1\<lparr>permit_rules := permit_rules st1 @ [r]\<rparr>
                       else if a = ''deny'' then st1\<lparr>deny_rules := deny_rules st1 @ [r]\<rparr>
                       else st1)
                in (st2, l))
      | _ \<Rightarrow> (st\<lparr>valid := False\<rparr>, [MissingFields r]))"

fun scan_rules :: "string option \<Rightarrow> scan_state \<Rightarrow> rule list \<Rightarrow> scan_state \<times> log_entry list" where
  "scan_rules current_role st [] = (st, [])"
| "scan_rules current_role st (r # rs) =
     (case scan_rule current_role st r of
        (st1, l1) \<Rightarrow>
          (case scan_rules current_role st1 rs of
             (st2, l2) \<Rightarrow> (st2, l1 @ l2)))"

text \<open>
  The condition of both pairwise loops,
  \<^verbatim>\<open>a['protocol'] == b['protocol'] and check_overlap(a['source'], a['destination'], b['source'], b['destination'])\<close>,
  with its lookups in evaluation order.
\<close>

definition same_protocol_and_overlap :: "rule \<Rightarrow> rule \<Rightarrow> bool result" where
  "same_protocol_and_overlap a b =
     (case getitem ''protocol'' (protocol a) of Inl e \<Rightarrow> ([], Inl e) | Inr pa \<Rightarrow>
      case getitem ''protocol'' (protocol b) of Inl e \<Rightarrow> ([], Inl e) | Inr pb \<Rightarrow>
      if pa \<noteq> pb then ([], Inr False) else
      case getitem ''source'' (source a) of Inl e \<Rightarrow> ([], Inl e) | Inr s1 \<Rightarrow>
      case getitem ''destination'' (destination a) of Inl e \<Rightarrow> ([], Inl e) | Inr d1 \<Rightarrow>
      case getitem ''source'' (source b) of Inl e \<Rightarrow> ([], Inl e) | Inr s2 \<Rightarrow>
      case getitem ''destination'' (destination b) of Inl e \<Rightarrow> ([], Inl e) | Inr d2 \<Rightarrow>
      check_overlap s1 d1 s2 d2)"

text \<open>
  A \<^verbatim>\<open>for\<close> loop whose body may log, may change \<^verbatim>\<open>valid\<close> and may raise: an exception
  ends the loop, and nothing else does.
\<close>

fun for_each :: "'a list \<Rightarrow> ('a \<Rightarrow> bool \<Rightarrow> bool result) \<Rightarrow> bool \<Rightarrow> bool result" where
  "for_each [] body v = ([], Inr v)"
| "for_each (x # xs) body v =
     (case body x v of
        (l, Inl e) \<Rightarrow> (l, Inl e)
      | (l, Inr v1) \<Rightarrow> (case for_each xs body v1 of (l2, r) \<Rightarrow> (l @ l2, r)))"

text \<open>The body of the permit/deny loop and the body of the loop over all pairs.\<close>

definition conflict_body :: "rule \<Rightarrow> rule \<Rightarrow> bool \<Rightarrow> bool result" where
  "conflict_body permit deny v =
     (case same_protocol_and_overlap permit deny of
        (l, Inl e) \<Rightarrow> (l, Inl e)
      | (l, Inr c) \<Rightarrow> if c then (l @ [Conflict permit deny], Inr False) else (l, Inr v))"

definition overlap_body :: "rule list \<Rightarrow> nat \<Rightarrow> nat \<Rightarrow> bool \<Rightarrow> bool result" where
  "overlap_body rules i j v =
     (case same_protocol_and_overlap (rules ! i) (rules ! j) of
        (l, Inl e) \<Rightarrow> (l, Inl e)
      | (l, Inr c) \<Rightarrow> if c then (l @ [Overlapping (rules ! i) (rules ! j)], Inr False) else (l, Inr v))"

definition conflict_scan :: "rule list \<Rightarrow> rule list \<Rightarrow> bool \<Rightarrow> bool result" where
  "conflict_scan permits denies v =
     for_each permits (\<lambda>permit. for_each denies (\<lambda>deny. conflict_body permit deny)) v"

definition overlap_scan :: "rule list \<Rightarrow> bool \<Rightarrow> bool result" where
  "overlap_scan rules v =
     for_each [0 ..< length rules]
       (\<lambda>i. for_each [i + 1 ..< length rules] (\<lambda>j. overlap_body rules i j)) v"

definition validate_acl_rules :: "string option \<Rightarrow> rule list \<Rightarrow> bool result" where
  "validate_acl_rules current_role rules =
     (case scan_rules current_role initial_state rules of
        (st, l1) \<Rightarrow>
          (case conflict_scan (permit_rules st) (deny_rules st) (valid st) of
             (l2, Inl e) \<Rightarrow> (l1 @ l2, Inl e)
           | (l2, Inr v2) \<Rightarrow>
               (case overlap_scan rules v2 of
                  (l3, r) \<Rightarrow> (l1 @ l2 @ l3, r))))"

subsection \<open>build\_acl\_command and configure\_acls\<close>

text \<open>\<^verbatim>\<open>str(n)\<close> for an integer, as the f-strings format it.\<close>

fun str_of_nat :: "nat \<Rightarrow> string" where
  "str_of_nat n =
     (if n < 10 then [char_of (48 + n)] else str_of_nat (n div 10) @ [char_of (48 + n mod 10)])"

definition str_of_int :: "int \<Rightarrow> string" where
  "str_of_int i = (if i < 0 then CHR ''-'' # str_of_nat (nat (- i)) else str_of_nat (nat i))"

definition build_acl_command :: "rule \<Rightarrow> exn + string" where
  "build_acl_command r =
     (case getitem ''acl_number'' (acl_number r) of Inl e \<Rightarrow> Inl e | Inr n \<Rightarrow>
      case getitem ''action'' (action r) of Inl e \<Rightarrow> Inl e | Inr a \<Rightarrow>
      case getitem ''protocol'' (protocol r) of Inl e \<Rightarrow> Inl e | Inr p \<Rightarrow>
      case getitem ''source'' (source r) of Inl e \<Rightarrow> Inl e | Inr s \<Rightarrow>
      case getitem ''destination'' (destination r) of Inl e \<Rightarrow> Inl e | Inr d \<Rightarrow>
      (let command = ''access-list '' @ str_of_int n @ '' '' @ a @ '' '' @ p @ '' ''
       in case port r of
            Some q \<Rightarrow> Inr (command @ ''host '' @ s @ '' host '' @ d @ '' eq '' @ str_of_int q)
          | None \<Rightarrow> Inr (command @ s @ '' '' @ d)))"

text \<open>\<^verbatim>\<open>[build_acl_command(rule) for rule in rules]\<close>: the first exception ends it.\<close>

fun build_commands :: "rule list \<Rightarrow> exn + string list" where
  "build_commands [] = Inr []"
| "build_commands (r # rs) =
     (case build_acl_command r of
        Inl e \<Rightarrow> Inl e
      | Inr c \<Rightarrow> (case build_commands rs of Inl e \<Rightarrow> Inl e | Inr cs \<Rightarrow> Inr (c # cs)))"

text \<open>
  A device is a dictionary of connection parameters; the program itself reads only
  its key \<^verbatim>\<open>host\<close>.
\<close>

record device =
  host :: "string option"

text \<open>
  The calls the program makes on the outside world: the netmiko session and the backup
  file. What they answer is not the program's: \<open>net c\<close> is the output of the call
  \<open>c\<close>, or \<open>None\<close> when the call raises.
\<close>

datatype net_call =
    ConnectHandler device
  | Enable
  | SendCommand string
  | SendConfigSet "string list"
  | Disconnect
  | WriteFile string string

text \<open>What can be observed of a run: log lines, calls on the outside world, printed lines.\<close>

datatype event = Logged log_entry | Called net_call | Printed string

type_synonym 'a run = "event list \<times> (exn + 'a)"

text \<open>Calls made in a row inside a \<^verbatim>\<open>try\<close> block: the outputs, or \<open>None\<close> at the first that raises.\<close>

fun run_calls :: "(net_call \<Rightarrow> string option) \<Rightarrow> net_call list \<Rightarrow> event list \<times> string list option" where
  "run_calls net [] = ([], Some [])"
| "run_calls net (c # cs) =
     (case net c of
        None \<Rightarrow> ([Called c], None)
      | Some out \<Rightarrow>
          (case run_calls net cs of (tr, r) \<Rightarrow> (Called c # tr, map_option ((#) out) r)))"

text \<open>
  The \<^verbatim>\<open>except Exception\<close> handlers: each formats \<^verbatim>\<open>device['host']\<close> into its message,
  so a device without that key makes the handler itself raise \<^verbatim>\<open>KeyError\<close>.
\<close>

definition handler :: "(string \<Rightarrow> log_entry) \<Rightarrow> device \<Rightarrow> event list \<Rightarrow> unit run" where
  "handler msg dev tr =
     (case getitem ''host'' (host dev) of
        Inl e \<Rightarrow> (tr, Inl e)
      | Inr h \<Rightarrow> (tr @ [Logged (msg h)], Inr ()))"

definition backup_current_config :: "(net_call \<Rightarrow> string option) \<Rightarrow> device \<Rightarrow> unit run" where
  "backup_current_config net dev =
     (case run_calls net
             [ConnectHandler dev, Enable,
              SendCommand ''show running-config | include access-list''] of
        (tr1, None) \<Rightarrow> handler BackupFailed dev tr1
      | (tr1, Some outs) \<Rightarrow>
          (case getitem ''host'' (host dev) of
             Inl e \<Rightarrow> handler BackupFailed dev tr1
           | Inr h \<Rightarrow>
               (case run_calls net [WriteFile (''backup_'' @ h @ ''_acl.txt'') (last outs)] of
                  (tr2, None) \<Rightarrow> handler BackupFailed dev (tr1 @ tr2)
                | (tr2, Some _) \<Rightarrow>
                    (case run_calls net [Disconnect] of
                       (tr3, None) \<Rightarrow>
                         handler BackupFailed dev (tr1 @ tr2 @ [Logged (BackedUp h)] @ tr3)
                     | (tr3, Some _) \<Rightarrow>
                         (tr1 @ tr2 @ [Logged (BackedUp h)] @ tr3, Inr ())))))"

text \<open>The lines printed by \<^verbatim>\<open>dry_run_commands\<close>.\<close>

definition dry_run_commands :: "string list \<Rightarrow> event list" where
  "dry_run_commands commands = map (\<lambda>command. Printed (''Dry Run: '' @ command)) commands"

text \<open>The \<^verbatim>\<open>try\<close> block of \<^verbatim>\<open>configure_acls\<close> and its handler.\<close>

definition apply_commands :: "(net_call \<Rightarrow> string option) \<Rightarrow> device \<Rightarrow> rule list \<Rightarrow> unit run" where
  "apply_commands net dev rules =
     (case run_calls net [ConnectHandler dev, Enable] of
        (tr1, None) \<Rightarrow> handler ConfigureFailed dev tr1
      | (tr1, Some _) \<Rightarrow>
          (case build_commands rules of
             Inl e \<Rightarrow> handler ConfigureFailed dev tr1
           | Inr commands \<Rightarrow>
               (case run_calls net [SendConfigSet commands] of
                  (tr2, None) \<Rightarrow> handler ConfigureFailed dev (tr1 @ tr2)
                | (tr2, Some outs) \<Rightarrow>
                    (case getitem ''host'' (host dev) of
                       Inl e \<Rightarrow> handler ConfigureFailed dev (tr1 @ tr2)
                     | Inr h \<Rightarrow>
                         (let tr3 = tr1 @ tr2 @ [Logged (Applied h), Logged (ConfigOutput (last outs))]
                          in case run_calls net [Disconnect] of
                               (tr4, None) \<Rightarrow> handler ConfigureFailed dev (tr3 @ tr4)
                             | (tr4, Some _) \<Rightarrow> (tr3 @ tr4, Inr ()))))))"

definition configure_acls ::
    "string option \<Rightarrow> (net_call \<Rightarrow> string option) \<Rightarrow> device \<Rightarrow> rule list \<Rightarrow> bool \<Rightarrow> unit run" where
  "configure_acls current_role net dev rules dry_run =
     (case validate_acl_rules current_role rules of
        (l, Inl e) \<Rightarrow> (map Logged l, Inl e)
      | (l, Inr ok) \<Rightarrow>
          if \<not> ok then (map Logged l @ [Logged ValidationFailed], Inr ())
          else if dry_run then
            (case build_commands rules of
               Inl e \<Rightarrow> (map Logged l, Inl e)
             | Inr commands \<Rightarrow> (map Logged l @ dry_run_commands commands, Inr ()))
          else
            (case backup_current_config net dev of
               (tr1, Inl e) \<Rightarrow> (map Logged l @ tr1, Inl e)
             | (tr1, Inr _) \<Rightarrow>
                 (case apply_commands net dev rules of
                    (tr2, r) \<Rightarrow> (map Logged l @ tr1 @ tr2, r))))"

subsection \<open>Vocabulary of the properties\<close>

text \<open>
  The block of addresses of a network: \<open>x\<close> is an address of version \<open>v\<close> between the
  network address and the broadcast address.
\<close>

definition in_network :: "network \<Rightarrow> nat \<Rightarrow> int \<Rightarrow> bool" where
  "in_network n v x =
     (v = net_version n \<and> network_address n \<le> x \<and> x \<le> broadcast_address n)"

text \<open>
  What the constructors guarantee of a network object: address and mask fit the width
  of the version, and the address has no bit outside the mask.
\<close>

definition well_formed :: "network \<Rightarrow> bool" where
  "well_formed n =
     (0 \<le> network_address n \<and> network_address n < 2 ^ max_prefixlen (net_version n)
      \<and> 0 \<le> netmask n \<and> netmask n < 2 ^ max_prefixlen (net_version n)
      \<and> network_address n AND netmask n = network_address n)"

text \<open>The lines the two pairwise loops can log.\<close>

fun is_pair_line :: "log_entry \<Rightarrow> bool" where
  "is_pair_line (IPAddressError _) = True"
| "is_pair_line (Conflict _ _) = True"
| "is_pair_line (Overlapping _ _) = True"
| "is_pair_line _ = False"

text \<open>The keys the first loop requires of a rule.\<close>

definition required_present :: "rule \<Rightarrow> bool" where
  "required_present r = (acl_number r \<noteq> None \<and> action r \<noteq> None \<and> protocol r \<noteq> None)"

text \<open>The lines the first loop logs for a rule set.\<close>

definition scan_log :: "string option \<Rightarrow> rule list \<Rightarrow> log_entry list" where
  "scan_log current_role rules = snd (scan_rules current_role initial_state rules)"

text \<open>An event that is a log line, as opposed to a call on a device or a printed command.\<close>

fun is_logged :: "event \<Rightarrow> bool" where
  "is_logged (Logged _) = True"
| "is_logged _ = False"

section \<open>Properties of check\_overlap\<close>

lemma overlaps_Addr: "overlaps (Addr a) other = Inl AttributeError"
  by (simp add: overlaps_def)

lemma overlaps_Net_Addr: "overlaps (Net n) (Addr a) = Inl TypeError"
  by (simp add: overlaps_def py_in_def)

lemma overlaps_Net_Net:
  "overlaps (Net a) (Net b) =
     Inr (contains b (net_version a) (network_address a)
          \<or> contains b (net_version a) (broadcast_address a)
          \<or> contains a (net_version b) (network_address b)
          \<or> contains a (net_version b) (broadcast_address b))"
  by (auto simp add: overlaps_def py_in_def)

lemma overlaps_Net_Net_commute: "overlaps (Net a) (Net b) = overlaps (Net b) (Net a)"
  by (auto simp add: overlaps_Net_Net)

text \<open>
  Malformed address text in either source makes the comparison answer \<open>False\<close>, with one
  line in the log and no exception.
\<close>

lemma check_overlap_malformed:
  assumes "parse_source source1 = None \<or> parse_source source2 = None"
  shows "snd (check_overlap source1 dest1 source2 dest2) = Inr False"
  using assms by (auto simp add: check_overlap_def split: option.splits)

subsection \<open>Parsed networks and their blocks of addresses\<close>

lemma ALL_ONES_mask: "ALL_ONES m = mask m"
  by (simp add: ALL_ONES_def mask_eq_exp_minus_1)

lemma mask_less_exp: "(mask m :: int) < 2 ^ m"
  by (simp add: mask_eq_exp_minus_1)

text \<open>Every parsed address fits the width of its version.\<close>

lemma ip_int_from_prefix_bounds:
  "0 \<le> ip_int_from_prefix m p \<and> ip_int_from_prefix m p < 2 ^ m"
proof -
  have "drop_bit p (mask m :: int) = mask (m - p)"
    by (rule bit_eqI) (auto simp add: bit_simps)
  moreover have "(2::int) ^ (m - p) \<le> 2 ^ m"
    by (rule power_increasing) simp_all
  ultimately have "drop_bit p (mask m :: int) < 2 ^ m"
    using mask_less_exp [of "m - p"] by linarith
  then have "mask m XOR drop_bit p (mask m :: int) < 2 ^ m"
    using mask_less_exp [of m] by (intro XOR_upper) simp_all
  then show ?thesis by (simp add: ip_int_from_prefix_def ALL_ONES_mask)
qed

lemma sequence_map:
  "sequence (map f xs) = Some ys \<Longrightarrow> list_all2 (\<lambda>x y. f x = Some y) xs ys"
proof (induction xs arbitrary: ys)
  case Nil
  then show ?case by simp
next
  case (Cons x xs)
  then show ?case
    by (cases "f x"; cases "sequence (map f xs)") auto
qed

lemma int_of_digits_nonneg_aux:
  "list_all is_ascii_digit s \<Longrightarrow> 0 \<le> n \<Longrightarrow>
   0 \<le> foldl (\<lambda>n c. 10 * n + (int (of_char c) - 48)) n s"
proof (induction s arbitrary: n)
  case Nil
  then show ?case by simp
next
  case (Cons c cs)
  from Cons.prems have "0 \<le> 10 * n + (int (of_char c) - 48)"
    by (simp add: is_ascii_digit_def)
  with Cons show ?case by simp
qed

lemma parse_octet_bounds: "parse_octet s = Some b \<Longrightarrow> 0 \<le> b \<and> b \<le> 255"
  using int_of_digits_nonneg_aux [of s 0]
  by (auto simp add: parse_octet_def isdigit_def int_of_digits_def Let_def split: if_splits)

lemma from_bytes_bounds:
  "0 \<le> (n::int) \<Longrightarrow> n < 256 ^ j \<Longrightarrow> \<forall>b \<in> set bs. 0 \<le> b \<and> b \<le> 255 \<Longrightarrow>
   0 \<le> foldl (\<lambda>n b. 256 * n + b) n bs \<and> foldl (\<lambda>n b. 256 * n + b) n bs < 256 ^ (j + length bs)"
proof (induction bs arbitrary: n j)
  case Nil
  then show ?case by simp
next
  case (Cons b bs)
  have "0 \<le> 256 * n + b" "256 * n + b < 256 ^ Suc j"
    using Cons.prems by auto
  from Cons.IH [OF this] Cons.prems(3) show ?case by simp
qed

lemma ip_int_from_string_v4_bounds:
  assumes "ip_int_from_string_v4 s = Some i"
  shows "0 \<le> i \<and> i < 2 ^ 32"
proof -
  from assms obtain bs where bs: "sequence (map parse_octet (split_on CHR ''.'' s)) = Some bs"
      "length (split_on CHR ''.'' s) = 4" "i = foldl (\<lambda>n b. 256 * n + b) 0 bs"
    by (auto simp add: ip_int_from_string_v4_def Let_def split: if_splits option.splits)
  from sequence_map [OF bs(1)]
  have l2: "list_all2 (\<lambda>x y. parse_octet x = Some y) (split_on CHR ''.'' s) bs" .
  then have len: "length bs = 4" using bs(2) by (auto dest: list_all2_lengthD)
  have "\<forall>b \<in> set bs. 0 \<le> b \<and> b \<le> 255"
  proof
    fix b assume "b \<in> set bs"
    then obtain k where "k < length bs" "bs ! k = b" by (auto simp add: in_set_conv_nth)
    with l2 have "parse_octet (split_on CHR ''.'' s ! k) = Some b"
      by (auto simp add: list_all2_conv_all_nth)
    then show "0 \<le> b \<and> b \<le> 255" by (rule parse_octet_bounds)
  qed
  from from_bytes_bounds [of 0 0 bs, OF _ _ this] len bs(3)
  show ?thesis by simp
qed


lemma hex_value_bounds: "hex_value c = Some d \<Longrightarrow> 0 \<le> d \<and> d \<le> 15"
  by (auto simp add: hex_value_def Let_def split: if_splits)

lemma hex_digits_bounds:
  "0 \<le> (n::int) \<Longrightarrow> n < 16 ^ j \<Longrightarrow> \<forall>d \<in> set ds. 0 \<le> d \<and> d \<le> 15 \<Longrightarrow>
   0 \<le> foldl (\<lambda>n d. 16 * n + d) n ds \<and> foldl (\<lambda>n d. 16 * n + d) n ds < 16 ^ (j + length ds)"
proof (induction ds arbitrary: n j)
  case Nil
  then show ?case by simp
next
  case (Cons d ds)
  have "0 \<le> 16 * n + d" "16 * n + d < 16 ^ Suc j"
    using Cons.prems by auto
  from Cons.IH [OF this] Cons.prems(3) show ?case by simp
qed

lemma parse_hextet_bounds:
  assumes "parse_hextet s = Some h"
  shows "0 \<le> h \<and> h < 2 ^ 16"
proof -
  from assms obtain ds where ds: "sequence (map hex_value s) = Some ds" "length s \<le> 4"
      "h = foldl (\<lambda>n d. 16 * n + d) 0 ds"
    by (auto simp add: parse_hextet_def split: option.splits if_splits)
  from sequence_map [OF ds(1)] have l2: "list_all2 (\<lambda>x y. hex_value x = Some y) s ds" .
  then have len: "length ds \<le> 4" using ds(2) by (auto dest: list_all2_lengthD)
  have "\<forall>d \<in> set ds. 0 \<le> d \<and> d \<le> 15"
  proof
    fix d assume "d \<in> set ds"
    then obtain k where "k < length ds" "ds ! k = d" by (auto simp add: in_set_conv_nth)
    with l2 have "hex_value (s ! k) = Some d" by (auto simp add: list_all2_conv_all_nth)
    then show "0 \<le> d \<and> d \<le> 15" by (rule hex_value_bounds)
  qed
  from hex_digits_bounds [of 0 0 ds, OF _ _ this] ds(3)
  have "0 \<le> h" "h < 16 ^ length ds" by simp_all
  moreover have "(16::int) ^ length ds \<le> 16 ^ 4" using len by (intro power_increasing) simp_all
  ultimately show ?thesis by simp
qed

lemma hextets_bounds:
  "0 \<le> (n::int) \<Longrightarrow> n < 2 ^ (16 * j) \<Longrightarrow> \<forall>h \<in> set hs. 0 \<le> h \<and> h < 2 ^ 16 \<Longrightarrow>
   0 \<le> foldl (\<lambda>n h. push_bit 16 n OR h) n hs
   \<and> foldl (\<lambda>n h. push_bit 16 n OR h) n hs < 2 ^ (16 * (j + length hs))"
proof (induction hs arbitrary: n j)
  case Nil
  then show ?case by simp
next
  case (Cons h hs)
  from Cons.prems have h: "0 \<le> h" "h < 2 ^ 16" by simp_all
  have p: "push_bit 16 n < 2 ^ (16 * Suc j)"
    using Cons.prems(2) by (simp add: push_bit_eq_mult power_add)
  have "(2::int) ^ 16 \<le> 2 ^ (16 * Suc j)" by (intro power_increasing) simp_all
  with h have h': "h < 2 ^ (16 * Suc j)" by linarith
  have "push_bit 16 n OR h < 2 ^ (16 * Suc j)"
    using Cons.prems(1) p h' by (intro OR_upper) simp_all
  moreover have "0 \<le> push_bit 16 n OR h" using Cons.prems(1) h by simp
  ultimately show ?case using Cons.IH [of "push_bit 16 n OR h" "Suc j"] Cons.prems(3) by simp
qed

lemma sequence_parse_hextet:
  assumes "sequence (map parse_hextet xs) = Some hs"
  shows "length hs = length xs \<and> (\<forall>h \<in> set hs. 0 \<le> h \<and> h < 2 ^ 16)"
proof -
  from sequence_map [OF assms] have l2: "list_all2 (\<lambda>x y. parse_hextet x = Some y) xs hs" .
  have "\<forall>h \<in> set hs. 0 \<le> h \<and> h < 2 ^ 16"
  proof
    fix h assume "h \<in> set hs"
    then obtain k where "k < length hs" "hs ! k = h" by (auto simp add: in_set_conv_nth)
    with l2 have "parse_hextet (xs ! k) = Some h" by (auto simp add: list_all2_conv_all_nth)
    then show "0 \<le> h \<and> h < 2 ^ 16" by (rule parse_hextet_bounds)
  qed
  with l2 show ?thesis by (auto dest: list_all2_lengthD)
qed

lemma assemble_bounds:
  assumes "sequence (map parse_hextet xs) = Some his"
    and "sequence (map parse_hextet ys) = Some los"
    and "length xs + skipped + length ys \<le> 8"
  shows "0 \<le> foldl (\<lambda>n h. push_bit 16 n OR h)
               (push_bit (16 * skipped) (foldl (\<lambda>n h. push_bit 16 n OR h) 0 his)) los
         \<and> foldl (\<lambda>n h. push_bit 16 n OR h)
               (push_bit (16 * skipped) (foldl (\<lambda>n h. push_bit 16 n OR h) 0 his)) los
             < (2::int) ^ 128"
proof -
  let ?f = "\<lambda>(n::int) h. push_bit 16 n OR h"
  from sequence_parse_hextet [OF assms(1)]
  have hi: "length his = length xs" "\<forall>h \<in> set his. 0 \<le> h \<and> h < 2 ^ 16" by simp_all
  from sequence_parse_hextet [OF assms(2)]
  have lo: "length los = length ys" "\<forall>h \<in> set los. 0 \<le> h \<and> h < 2 ^ 16" by simp_all
  from hextets_bounds [of 0 0 his, OF _ _ hi(2)]
  have a: "0 \<le> foldl ?f 0 his" "foldl ?f 0 his < 2 ^ (16 * length his)" by simp_all
  have b: "0 \<le> push_bit (16 * skipped) (foldl ?f 0 his)"
      "push_bit (16 * skipped) (foldl ?f 0 his) < 2 ^ (16 * (length his + skipped))"
    using a by (simp_all add: push_bit_eq_mult power_add distrib_left)
  from hextets_bounds [OF b lo(2)]
  have c: "0 \<le> foldl ?f (push_bit (16 * skipped) (foldl ?f 0 his)) los"
      "foldl ?f (push_bit (16 * skipped) (foldl ?f 0 his)) los
         < 2 ^ (16 * (length his + skipped + length los))" by simp_all
  have "16 * (length his + skipped + length los) \<le> 128" using assms(3) hi(1) lo(1) by simp
  then have "(2::int) ^ (16 * (length his + skipped + length los)) \<le> 2 ^ 128"
    by (intro power_increasing) simp_all
  with c show ?thesis by linarith
qed

lemma ip_int_from_string_v6_bounds:
  assumes "ip_int_from_string_v6 s = Some i"
  shows "0 \<le> i \<and> i < 2 ^ 128"
proof -
  define layout where "layout = (\<lambda>(parts::string list) (empties::nat list).
     (case empties of
                 skip_index # _ \<Rightarrow>
                   (let parts_hi0 = skip_index;
                        parts_lo0 = length parts - skip_index - 1
                    in if hd parts = [] \<and> parts_hi0 - 1 \<noteq> 0 then None
                       else (let parts_hi = (if hd parts = [] then parts_hi0 - 1 else parts_hi0)
                        in if last parts = [] \<and> parts_lo0 - 1 \<noteq> 0 then None
                           else (let parts_lo = (if last parts = [] then parts_lo0 - 1 else parts_lo0)
                            in if int 8 - int (parts_hi + parts_lo) < 1 then None
                               else Some (parts_hi, parts_lo, 8 - (parts_hi + parts_lo)))))
               | [] \<Rightarrow>
                   if length parts \<noteq> 8 then None
                   else if hd parts = [] then None
                   else if last parts = [] then None
                   else Some (length parts, 0, 0)))"
  have layout_sum: "hi + sk + lo \<le> 8" if "layout parts empties = Some (hi, lo, sk)"
    for parts empties hi lo sk
    using that unfolding layout_def
    by (auto simp add: Let_def split: list.splits if_splits)
  have eq: "ip_int_from_string_v6 s =
     (if s = [] then None
      else (let parts0 = split_on CHR '':'' s
       in if length parts0 < 3 then None
       else (case (if CHR ''.'' \<in> set (last parts0)
                   then (case IPv4Address (last parts0) of
                           None \<Rightarrow> None
                         | Some v4 \<Rightarrow>
                             Some (butlast parts0 @
                                   [hex_str (nat (drop_bit 16 (ip v4) AND 0xFFFF)),
                                    hex_str (nat (ip v4 AND 0xFFFF))]))
                   else Some parts0) of
               None \<Rightarrow> None
             | Some parts \<Rightarrow>
        if length parts > 9 then None
        else (let empties = filter (\<lambda>i. parts ! i = []) [1 ..< length parts - 1]
         in if length empties > 1 then None
         else (case layout parts empties of
             None \<Rightarrow> None
           | Some (parts_hi, parts_lo, parts_skipped) \<Rightarrow>
               (case sequence (map parse_hextet (take parts_hi parts)) of
                  None \<Rightarrow> None
                | Some his \<Rightarrow>
                    (case sequence (map parse_hextet (drop (length parts - parts_lo) parts)) of
                       None \<Rightarrow> None
                     | Some los \<Rightarrow>
                         Some (foldl (\<lambda>n h. push_bit 16 n OR h)
                                 (push_bit (16 * parts_skipped)
                                    (foldl (\<lambda>n h. push_bit 16 n OR h) 0 his)) los))))))))"
    unfolding ip_int_from_string_v6_def layout_def ..
  from assms [unfolded eq]
  obtain parts empties hi lo sk his los where
      l: "layout parts empties = Some (hi, lo, sk)"
    and h: "sequence (map parse_hextet (take hi parts)) = Some his"
    and lw: "sequence (map parse_hextet (drop (length parts - lo) parts)) = Some los"
    and i: "i = foldl (\<lambda>n h. push_bit 16 n OR h)
                  (push_bit (16 * sk) (foldl (\<lambda>n h. push_bit 16 n OR h) 0 his)) los"
    by (auto simp add: Let_def simp del: hex_str.simps split: if_splits option.splits prod.splits)
  have "length (take hi parts) + sk + length (drop (length parts - lo) parts) \<le> 8"
    using layout_sum [OF l] by simp
  from assemble_bounds [OF h lw this] i show ?thesis by simp
qed


lemma IPv4Address_bounds:
  assumes "IPv4Address s = Some a"
  shows "0 \<le> ip a \<and> ip a < 2 ^ 32"
  using assms ip_int_from_string_v4_bounds [of s]
  by (auto simp add: IPv4Address_def split: if_splits)

lemma IPv6Address_bounds:
  assumes "IPv6Address s = Some a"
  shows "0 \<le> ip a \<and> ip a < 2 ^ 128"
proof -
  from assms obtain s' i where "ip_int_from_string_v6 s' = Some i" "ip a = i"
    by (auto simp add: IPv6Address_def split: if_splits option.splits)
  with ip_int_from_string_v6_bounds [of s' i] show ?thesis by simp
qed

lemma masked_well_formed:
  assumes "0 \<le> packed" and "packed < 2 ^ max_prefixlen v"
    and "nm = ip_int_from_prefix (max_prefixlen v) p"
  shows "well_formed (Network v (packed AND nm) nm p)"
proof -
  have "packed AND nm \<le> packed" using assms(1) by simp
  with assms ip_int_from_prefix_bounds [of "max_prefixlen v" p]
  show ?thesis by (simp add: well_formed_def and.assoc)
qed

lemma IPv4Network_well_formed:
  assumes "IPv4Network s = Some n"
  shows "well_formed n"
proof -
  let ?mask = "\<lambda>m. case m of None \<Rightarrow> Some (ip_int_from_prefix IPV4LENGTH IPV4LENGTH, IPV4LENGTH)
                       | Some x \<Rightarrow> make_netmask_v4 x"
  obtain addr m where sp: "split_addr_prefix s = Some (addr, m)"
    using assms by (cases "split_addr_prefix s") (auto simp add: IPv4Network_def)
  obtain na where a: "IPv4Address addr = Some na"
    using assms sp by (cases "IPv4Address addr") (auto simp add: IPv4Network_def)
  obtain nm p where m: "?mask m = Some (nm, p)"
    using assms sp a by (cases "?mask m") (auto simp add: IPv4Network_def)
  from assms sp a m
  have n: "n = (if ip na AND nm \<noteq> ip na then Network 4 (ip na AND nm) nm p
                 else Network 4 (ip na) nm p)"
    by (auto simp add: IPv4Network_def Let_def split: if_splits)
  from m have nm: "nm = ip_int_from_prefix (max_prefixlen 4) p"
    by (auto simp add: make_netmask_v4_def max_prefixlen_def IPV4LENGTH_def IPV4LENGTH_def split: option.splits)
  from IPv4Address_bounds [OF a]
  have b: "0 \<le> ip na" "ip na < 2 ^ max_prefixlen 4"
    by (simp_all add: max_prefixlen_def IPV4LENGTH_def IPV4LENGTH_def)
  from masked_well_formed [OF b nm] have "well_formed (Network 4 (ip na AND nm) nm p)" .
  with n show ?thesis by (cases "ip na AND nm = ip na") simp_all
qed

lemma IPv6Network_well_formed:
  assumes "IPv6Network s = Some n"
  shows "well_formed n"
proof -
  let ?mask = "\<lambda>m. case m of None \<Rightarrow> Some (ip_int_from_prefix IPV6LENGTH IPV6LENGTH, IPV6LENGTH)
                       | Some x \<Rightarrow> make_netmask_v6 x"
  obtain addr m where sp: "split_addr_prefix s = Some (addr, m)"
    using assms by (cases "split_addr_prefix s") (auto simp add: IPv6Network_def)
  obtain na where a: "IPv6Address addr = Some na"
    using assms sp by (cases "IPv6Address addr") (auto simp add: IPv6Network_def)
  obtain nm p where m: "?mask m = Some (nm, p)"
    using assms sp a by (cases "?mask m") (auto simp add: IPv6Network_def)
  from assms sp a m
  have n: "n = (if ip na AND nm \<noteq> ip na then Network 6 (ip na AND nm) nm p
                 else Network 6 (ip na) nm p)"
    by (auto simp add: IPv6Network_def Let_def split: if_splits)
  from m have nm: "nm = ip_int_from_prefix (max_prefixlen 6) p"
    by (auto simp add: make_netmask_v6_def max_prefixlen_def IPV6LENGTH_def IPV4LENGTH_def split: option.splits)
  from IPv6Address_bounds [OF a]
  have b: "0 \<le> ip na" "ip na < 2 ^ max_prefixlen 6"
    by (simp_all add: max_prefixlen_def IPV6LENGTH_def IPV4LENGTH_def)
  from masked_well_formed [OF b nm] have "well_formed (Network 6 (ip na AND nm) nm p)" .
  with n show ?thesis by (cases "ip na AND nm = ip na") simp_all
qed

lemma ip_network_well_formed:
  assumes "ip_network s = Some n"
  shows "well_formed n"
  using assms IPv4Network_well_formed [of s n] IPv6Network_well_formed [of s n]
  by (auto simp add: ip_network_def split: option.splits)

text \<open>
  Membership as the library tests it implies membership in the block, and two networks
  whose blocks share no address do not overlap.
\<close>

lemma in_range_and_mask:
  fixes x :: int
  assumes "0 \<le> x" and "x < 2 ^ m"
  shows "x AND mask m = x"
  using assms by (simp add: take_bit_int_eq_self flip: take_bit_eq_mask)

lemma hostmask_bounds:
  assumes "well_formed n"
  shows "0 \<le> hostmask n \<and> hostmask n < 2 ^ max_prefixlen (net_version n)"
proof -
  from assms have nm: "0 \<le> netmask n" "netmask n < 2 ^ max_prefixlen (net_version n)"
    by (simp_all add: well_formed_def)
  have "netmask n XOR mask (max_prefixlen (net_version n)) < 2 ^ max_prefixlen (net_version n)"
    using nm mask_less_exp by (intro XOR_upper)
  with nm show ?thesis by (simp add: hostmask_def ALL_ONES_mask)
qed

lemma broadcast_bounds:
  assumes "well_formed n"
  shows "0 \<le> broadcast_address n
         \<and> broadcast_address n < 2 ^ max_prefixlen (net_version n)
         \<and> network_address n \<le> broadcast_address n"
proof -
  from assms have na: "0 \<le> network_address n" "network_address n < 2 ^ max_prefixlen (net_version n)"
    by (simp_all add: well_formed_def)
  from hostmask_bounds [OF assms]
  have hm: "0 \<le> hostmask n" "hostmask n < 2 ^ max_prefixlen (net_version n)" by simp_all
  have "network_address n OR hostmask n < 2 ^ max_prefixlen (net_version n)"
    using na hm by (intro OR_upper)
  moreover have "network_address n \<le> network_address n OR hostmask n"
    using hm(1) by (rule or_greater_eq)
  ultimately show ?thesis using na hm by (simp add: broadcast_address_def)
qed

lemma contains_in_network:
  assumes wf: "well_formed n" and x: "0 \<le> x" "x < 2 ^ max_prefixlen (net_version n)"
    and c: "contains n v x"
  shows "in_network n v x"
proof -
  let ?m = "max_prefixlen (net_version n)"
  from c have v: "v = net_version n" and eq: "x AND netmask n = network_address n"
    by (auto simp add: contains_def split: if_splits)
  have lo: "network_address n \<le> x"
    using x(1) AND_upper1 [of x "netmask n"] eq by simp
  have xm: "x AND mask ?m = x" using x by (rule in_range_and_mask)
  have "x AND broadcast_address n = x"
  proof (rule bit_eqI)
    fix k
    have b1: "bit (network_address n) k = (bit x k \<and> bit (netmask n) k)"
      using eq by (metis bit_and_iff)
    have b2: "bit x k \<longrightarrow> bit (mask ?m :: int) k"
      using xm by (metis bit_and_iff)
    show "bit (x AND broadcast_address n) k = bit x k"
      using b1 b2
      by (auto simp add: broadcast_address_def hostmask_def ALL_ONES_mask
          bit_and_iff bit_or_iff bit_xor_iff)
  qed
  moreover have "0 \<le> broadcast_address n" using broadcast_bounds [OF wf] by simp
  ultimately have hi: "x \<le> broadcast_address n"
    using AND_upper2 [of "broadcast_address n" x] by simp
  from v lo hi show ?thesis by (simp add: in_network_def)
qed

lemma overlaps_disjoint:
  assumes "well_formed a" and "well_formed b"
    and "\<forall>v x. \<not> (in_network a v x \<and> in_network b v x)"
  shows "overlaps (Net a) (Net b) = Inr False"
proof -
  have na: "0 \<le> network_address a" "network_address a < 2 ^ max_prefixlen (net_version a)"
    and nb: "0 \<le> network_address b" "network_address b < 2 ^ max_prefixlen (net_version b)"
    using assms(1,2) by (simp_all add: well_formed_def)
  note ba = broadcast_bounds [OF assms(1)]
  note bb = broadcast_bounds [OF assms(2)]
  have own_a: "in_network a (net_version a) (network_address a)"
      "in_network a (net_version a) (broadcast_address a)"
    using ba by (simp_all add: in_network_def)
  have own_b: "in_network b (net_version b) (network_address b)"
      "in_network b (net_version b) (broadcast_address b)"
    using bb by (simp_all add: in_network_def)
  have c1: "\<not> contains b (net_version a) (network_address a)"
  proof
    assume c: "contains b (net_version a) (network_address a)"
    then have v: "net_version a = net_version b" by (auto simp add: contains_def split: if_splits)
    from contains_in_network [OF assms(2) _ _ c] na v
    have "in_network b (net_version a) (network_address a)" by simp
    with own_a(1) assms(3) show False by blast
  qed
  have c2: "\<not> contains b (net_version a) (broadcast_address a)"
  proof
    assume c: "contains b (net_version a) (broadcast_address a)"
    then have v: "net_version a = net_version b" by (auto simp add: contains_def split: if_splits)
    from contains_in_network [OF assms(2) _ _ c] ba v
    have "in_network b (net_version a) (broadcast_address a)" by simp
    with own_a(2) assms(3) show False by blast
  qed
  have c3: "\<not> contains a (net_version b) (network_address b)"
  proof
    assume c: "contains a (net_version b) (network_address b)"
    then have v: "net_version b = net_version a" by (auto simp add: contains_def split: if_splits)
    from contains_in_network [OF assms(1) _ _ c] nb v
    have "in_network a (net_version b) (network_address b)" by simp
    with own_b(1) assms(3) show False by blast
  qed
  have c4: "\<not> contains a (net_version b) (broadcast_address b)"
  proof
    assume c: "contains a (net_version b) (broadcast_address b)"
    then have v: "net_version b = net_version a" by (auto simp add: contains_def split: if_splits)
    from contains_in_network [OF assms(1) _ _ c] bb v
    have "in_network a (net_version b) (broadcast_address b)" by simp
    with own_b(2) assms(3) show False by blast
  qed
  from c1 c2 c3 c4 show ?thesis by (simp add: overlaps_Net_Net)
qed

lemma check_overlap_disjoint:
  assumes "CHR ''/'' \<in> set s1" and "CHR ''/'' \<in> set s2"
    and "ip_network s1 = Some a" and "ip_network s2 = Some b"
    and "\<forall>v x. \<not> (in_network a v x \<and> in_network b v x)"
  shows "check_overlap s1 d1 s2 d2 = ([], Inr False)"
  using assms overlaps_disjoint [OF ip_network_well_formed ip_network_well_formed, of s1 a s2 b]
  by (simp add: check_overlap_def parse_source_def)

text \<open>
  C2. A single address and a CIDR range that contains it are reported as overlapping.
  The code does not report it: a source without \<^verbatim>\<open>/\<close> is parsed by
  \<^verbatim>\<open>ip_address\<close> into an address object, which has no method \<^verbatim>\<open>overlaps\<close> and does
  not support \<^verbatim>\<open>in\<close>. With the address first the call raises \<^verbatim>\<open>AttributeError\<close>, with
  the range first it raises \<^verbatim>\<open>TypeError\<close>, and two equal single addresses raise
  \<^verbatim>\<open>AttributeError\<close> as well; none of them is the \<^verbatim>\<open>ValueError\<close> the function catches.
\<close>

theorem check_overlap_single_address_raises:
  "check_overlap ''10.0.0.5'' ''9.9.9.9'' ''10.0.0.0/24'' ''8.8.8.8'' = ([], Inl AttributeError)
   \<and> check_overlap ''10.0.0.0/24'' ''8.8.8.8'' ''10.0.0.5'' ''9.9.9.9'' = ([], Inl TypeError)
   \<and> check_overlap ''10.0.0.5'' ''8.8.8.8'' ''10.0.0.5'' ''9.9.9.9'' = ([], Inl AttributeError)"
  by code_simp

text \<open>
  C3. Two calls of \<^verbatim>\<open>check_overlap\<close> with the same two sources give the same result and
  the same log lines, whatever the two destinations are.
\<close>

theorem check_overlap_ignores_destinations:
  "check_overlap source1 dest1 source2 dest2 = check_overlap source1 dest1' source2 dest2'"
  by (simp add: check_overlap_def)

theorem check_overlap_ignores_destinations_witness:
  "check_overlap ''10.0.0.0/24'' ''8.8.8.8'' ''10.0.0.128/25'' ''9.9.9.9''
     = check_overlap ''10.0.0.0/24'' ''1.1.1.1'' ''10.0.0.128/25'' ''bogus''
   \<and> check_overlap ''10.0.0.0/24'' ''8.8.8.8'' ''10.0.0.128/25'' ''9.9.9.9'' = ([], Inr True)"
proof -
  have "check_overlap ''10.0.0.0/24'' ''8.8.8.8'' ''10.0.0.128/25'' ''9.9.9.9'' = ([], Inr True)"
    by code_simp
  then show ?thesis
    using check_overlap_ignores_destinations
      [of "''10.0.0.0/24''" "''8.8.8.8''" "''10.0.0.128/25''" "''9.9.9.9''" "''1.1.1.1''" "''bogus''"]
    by simp
qed

text \<open>
  C10. For two sources that both contain \<^verbatim>\<open>/\<close> and both parse as networks,
  \<^verbatim>\<open>check_overlap\<close> is symmetric, whatever the destinations are.
\<close>

theorem check_overlap_symmetric_on_networks:
  assumes "CHR ''/'' \<in> set a" and "CHR ''/'' \<in> set b"
    and "ip_network a = Some na" and "ip_network b = Some nb"
  shows "check_overlap a d1 b d2 = check_overlap b d2 a d1"
  using assms by (simp add: check_overlap_def parse_source_def overlaps_Net_Net_commute)

theorem check_overlap_symmetric_on_networks_witness:
  "CHR ''/'' \<in> set ''10.0.0.0/24'' \<and> CHR ''/'' \<in> set ''10.0.0.128/25''
   \<and> ip_network ''10.0.0.0/24'' = Some (Network 4 167772160 4294967040 24)
   \<and> ip_network ''10.0.0.128/25'' = Some (Network 4 167772288 4294967168 25)
   \<and> check_overlap ''10.0.0.0/24'' ''8.8.8.8'' ''10.0.0.128/25'' ''9.9.9.9''
       = check_overlap ''10.0.0.128/25'' ''9.9.9.9'' ''10.0.0.0/24'' ''8.8.8.8''
   \<and> check_overlap ''10.0.0.0/24'' ''8.8.8.8'' ''10.0.0.128/25'' ''9.9.9.9'' = ([], Inr True)"
proof -
  have h1: "CHR ''/'' \<in> set ''10.0.0.0/24''" by simp
  have h2: "CHR ''/'' \<in> set ''10.0.0.128/25''" by simp
  have h3: "ip_network ''10.0.0.0/24'' = Some (Network 4 167772160 4294967040 24)"
    by code_simp
  have h4: "ip_network ''10.0.0.128/25'' = Some (Network 4 167772288 4294967168 25)"
    by code_simp
  have h5: "check_overlap ''10.0.0.0/24'' ''8.8.8.8'' ''10.0.0.128/25'' ''9.9.9.9'' = ([], Inr True)"
    by code_simp
  show ?thesis
    using check_overlap_symmetric_on_networks [OF h1 h2 h3 h4, of "''8.8.8.8''" "''9.9.9.9''"]
      h1 h2 h3 h4 h5
    by simp
qed

section \<open>Properties of validate\_acl\_rules\<close>

text \<open>The first loop.\<close>

lemma scan_rules_append:
  "scan_rules role st (xs @ ys) =
     (case scan_rules role st xs of
        (st1, l1) \<Rightarrow> (case scan_rules role st1 ys of (st2, l2) \<Rightarrow> (st2, l1 @ l2)))"
  by (induction xs arbitrary: st) (auto split: prod.splits)

lemma scan_rule_missing:
  "\<not> required_present r \<Longrightarrow> scan_rule role st r = (st\<lparr>valid := False\<rparr>, [MissingFields r])"
  by (auto simp add: scan_rule_def required_present_def split: option.splits)

lemma scan_rule_denied:
  "required_present r \<Longrightarrow> action r = Some ''deny'' \<Longrightarrow>
   scan_rule (Some ''read-only'') st r = (st\<lparr>valid := False\<rparr>, [PermissionDenied])"
  by (auto simp add: scan_rule_def required_present_def split: option.splits)

lemma scan_rule_valid: "valid (fst (scan_rule role st r)) \<Longrightarrow> valid st"
  by (auto simp add: scan_rule_def Let_def split: option.splits if_splits prod.splits)

lemma scan_rules_valid: "valid (fst (scan_rules role st rs)) \<Longrightarrow> valid st"
proof (induction rs arbitrary: st)
  case Nil
  then show ?case by simp
next
  case (Cons r rs)
  obtain st1 l1 where s1: "scan_rule role st r = (st1, l1)" by (cases "scan_rule role st r")
  obtain st2 l2 where s2: "scan_rules role st1 rs = (st2, l2)" by (cases "scan_rules role st1 rs")
  from Cons.prems s1 s2 have "valid st2" by simp
  with Cons.IH [of st1] s2 have "valid st1" by simp
  with scan_rule_valid [of role st r] s1 show ?case by simp
qed

text \<open>The pairwise loops: what they log, and that they never set \<^verbatim>\<open>valid\<close> back.\<close>

lemma for_each_log:
  assumes "\<And>x v l r. x \<in> set xs \<Longrightarrow> body x v = (l, r) \<Longrightarrow> list_all P l"
    and "for_each xs body v = (l, r)"
  shows "list_all P l"
  using assms
proof (induction xs arbitrary: v l r)
  case Nil
  then show ?case by simp
next
  case (Cons x xs)
  obtain l1 r1 where b: "body x v = (l1, r1)" by (cases "body x v")
  have p1: "list_all P l1" using Cons.prems(1) [of x v l1 r1] b by simp
  show ?case
  proof (cases r1)
    case (Inl e)
    with b Cons.prems(2) p1 show ?thesis by simp
  next
    case (Inr v1)
    obtain l2 r2 where f: "for_each xs body v1 = (l2, r2)" by (cases "for_each xs body v1")
    have "list_all P l2"
    proof (rule Cons.IH [OF _ f])
      fix y w l' r'
      assume "y \<in> set xs" and "body y w = (l', r')"
      then show "list_all P l'" using Cons.prems(1) [of y w l' r'] by simp
    qed
    with b Inr f Cons.prems(2) p1 show ?thesis by auto
  qed
qed

lemma check_overlap_log: "check_overlap s1 d1 s2 d2 = (l, r) \<Longrightarrow> list_all is_pair_line l"
  by (auto simp add: check_overlap_def split: option.splits)

lemma same_protocol_and_overlap_log:
  "same_protocol_and_overlap a b = (l, r) \<Longrightarrow> list_all is_pair_line l"
  by (auto simp add: same_protocol_and_overlap_def getitem_def
      split: option.splits if_splits dest: check_overlap_log)

lemma conflict_body_log: "conflict_body p d v = (l, r) \<Longrightarrow> list_all is_pair_line l"
  by (auto simp add: conflict_body_def split: prod.splits sum.splits if_splits
      dest: same_protocol_and_overlap_log)

lemma overlap_body_log: "overlap_body rules i j v = (l, r) \<Longrightarrow> list_all is_pair_line l"
  by (auto simp add: overlap_body_def split: prod.splits sum.splits if_splits
      dest: same_protocol_and_overlap_log)

lemma conflict_scan_log: "conflict_scan ps ds v = (l, r) \<Longrightarrow> list_all is_pair_line l"
  unfolding conflict_scan_def
  by (erule for_each_log [rotated]) (erule for_each_log [rotated], erule conflict_body_log)

lemma overlap_scan_log: "overlap_scan rules v = (l, r) \<Longrightarrow> list_all is_pair_line l"
  unfolding overlap_scan_def
  by (erule for_each_log [rotated]) (erule for_each_log [rotated], erule overlap_body_log)

lemma conflict_body_mono: "conflict_body p d v = (l, Inr v') \<Longrightarrow> v' \<Longrightarrow> v"
  by (auto simp add: conflict_body_def split: prod.splits sum.splits if_splits)

lemma overlap_body_mono: "overlap_body rules i j v = (l, Inr v') \<Longrightarrow> v' \<Longrightarrow> v"
  by (auto simp add: overlap_body_def split: prod.splits sum.splits if_splits)

lemma for_each_mono_gen:
  assumes "\<And>x v l v'. body x v = (l, Inr v') \<Longrightarrow> v' \<Longrightarrow> v"
    and "for_each xs body v = (l, Inr v')" and "v'"
  shows "v"
  using assms(2,3)
proof (induction xs arbitrary: v l)
  case Nil
  then show ?case by simp
next
  case (Cons x xs)
  then show ?case
    by (auto split: prod.splits sum.splits dest: assms(1))
qed

lemma conflict_scan_mono: "conflict_scan ps ds v = (l, Inr v') \<Longrightarrow> v' \<Longrightarrow> v"
  unfolding conflict_scan_def
  by (erule for_each_mono_gen [rotated]) (auto elim: for_each_mono_gen [rotated] conflict_body_mono)

lemma overlap_scan_mono: "overlap_scan rules v = (l, Inr v') \<Longrightarrow> v' \<Longrightarrow> v"
  unfolding overlap_scan_def
  by (erule for_each_mono_gen [rotated]) (auto elim: for_each_mono_gen [rotated] overlap_body_mono)

lemma validate_log_split:
  "\<exists>rest. fst (validate_acl_rules role rules) = scan_log role rules @ rest
          \<and> list_all is_pair_line rest"
  by (auto simp add: validate_acl_rules_def scan_log_def
      split: prod.splits sum.splits dest: conflict_scan_log overlap_scan_log)

lemma validate_True_valid:
  assumes "snd (validate_acl_rules role rules) = Inr True"
  shows "valid (fst (scan_rules role initial_state rules))"
  using assms
  by (auto simp add: validate_acl_rules_def split: prod.splits sum.splits
      dest: conflict_scan_mono overlap_scan_mono)


lemma scan_rules_invalid:
  assumes "r \<in> set rs" and "\<And>st'. \<not> valid (fst (scan_rule role st' r))"
  shows "\<not> valid (fst (scan_rules role st rs))"
  using assms(1)
proof (induction rs arbitrary: st)
  case Nil
  then show ?case by simp
next
  case (Cons x xs)
  obtain st1 l1 where s1: "scan_rule role st x = (st1, l1)" by (cases "scan_rule role st x")
  obtain st2 l2 where s2: "scan_rules role st1 xs = (st2, l2)" by (cases "scan_rules role st1 xs")
  show ?case
  proof (cases "r = x")
    case True
    with assms(2) [of st] s1 have "\<not> valid st1" by simp
    with scan_rules_valid [of role st1 xs] s2 have "\<not> valid st2" by auto
    with s1 s2 show ?thesis by simp
  next
    case False
    with Cons.prems have "r \<in> set xs" by simp
    with Cons.IH [of st1] s1 s2 show ?thesis by simp
  qed
qed

lemma scan_rule_count:
  "count_list (snd (scan_rule (Some ''read-only'') st r)) PermissionDenied
     = (if required_present r \<and> action r = Some ''deny'' then 1 else 0)"
  by (auto simp add: scan_rule_def required_present_def Let_def split: option.splits prod.splits)

lemma scan_rules_count:
  "count_list (snd (scan_rules (Some ''read-only'') st rs)) PermissionDenied
     = length (filter (\<lambda>r. required_present r \<and> action r = Some ''deny'') rs)"
proof (induction rs arbitrary: st)
  case Nil
  then show ?case by simp
next
  case (Cons x xs)
  obtain st1 l1 where s1: "scan_rule (Some ''read-only'') st x = (st1, l1)"
    by (cases "scan_rule (Some ''read-only'') st x")
  obtain st2 l2 where s2: "scan_rules (Some ''read-only'') st1 xs = (st2, l2)"
    by (cases "scan_rules (Some ''read-only'') st1 xs")
  from scan_rule_count [of st x] s1
  have c1: "count_list l1 PermissionDenied
              = (if required_present x \<and> action x = Some ''deny'' then 1 else 0)"
    by simp
  from Cons.IH [of st1] s2
  have c2: "count_list l2 PermissionDenied
              = length (filter (\<lambda>r. required_present r \<and> action r = Some ''deny'') xs)"
    by simp
  from s1 s2 c1 c2 show ?case by simp
qed

lemma pair_lines_not_denied: "list_all is_pair_line l \<Longrightarrow> count_list l PermissionDenied = 0"
  by (induction l) auto

lemma scan_rule_other_role:
  "role \<noteq> Some ''read-only'' \<Longrightarrow> PermissionDenied \<notin> set (snd (scan_rule role st r))"
  by (auto simp add: scan_rule_def Let_def split: option.splits prod.splits if_splits)

lemma scan_rule_not_deny:
  "action r \<noteq> Some ''deny'' \<Longrightarrow> PermissionDenied \<notin> set (snd (scan_rule role st r))"
  by (auto simp add: scan_rule_def Let_def split: option.splits prod.splits if_splits)

lemma scan_rules_other_role:
  "role \<noteq> Some ''read-only'' \<Longrightarrow> PermissionDenied \<notin> set (snd (scan_rules role st rs))"
proof (induction rs arbitrary: st)
  case Nil
  then show ?case by simp
next
  case (Cons x xs)
  obtain st1 l1 where s1: "scan_rule role st x = (st1, l1)" by (cases "scan_rule role st x")
  obtain st2 l2 where s2: "scan_rules role st1 xs = (st2, l2)" by (cases "scan_rules role st1 xs")
  from scan_rule_other_role [OF Cons.prems, of st x] s1 have "PermissionDenied \<notin> set l1" by simp
  moreover from Cons.IH [OF Cons.prems, of st1] s2 have "PermissionDenied \<notin> set l2" by simp
  ultimately show ?case using s1 s2 by simp
qed

lemma pair_lines_no_denied: "list_all is_pair_line l \<Longrightarrow> PermissionDenied \<notin> set l"
  by (induction l) auto

text \<open>
  The permission check. Under the role \<^verbatim>\<open>read-only\<close>, the iteration for a rule that has
  its required keys and the action \<^verbatim>\<open>deny\<close> logs exactly the permission line and
  clears \<^verbatim>\<open>valid\<close>; the log of a validation holds as many permission lines as there
  are such rules, and with one of them \<^verbatim>\<open>valid\<close> is cleared after the first loop and
  the validation does not return \<open>True\<close>. A rule with the action \<^verbatim>\<open>permit\<close> never
  logs the permission line, and under any other role no rule does.
\<close>

lemma permission_denied_on_read_only_deny:
  "(required_present r \<and> action r = Some ''deny'' \<longrightarrow>
      scan_rule (Some ''read-only'') st r = (st\<lparr>valid := False\<rparr>, [PermissionDenied]))
   \<and> count_list (fst (validate_acl_rules (Some ''read-only'') rules)) PermissionDenied
       = length (filter (\<lambda>r. required_present r \<and> action r = Some ''deny'') rules)
   \<and> ((\<exists>r \<in> set rules. required_present r \<and> action r = Some ''deny'') \<longrightarrow>
        \<not> valid (fst (scan_rules (Some ''read-only'') initial_state rules))
        \<and> snd (validate_acl_rules (Some ''read-only'') rules) \<noteq> Inr True)
   \<and> (action r = Some ''permit'' \<longrightarrow> PermissionDenied \<notin> set (snd (scan_rule role st r)))
   \<and> (role \<noteq> Some ''read-only'' \<longrightarrow>
        PermissionDenied \<notin> set (fst (validate_acl_rules role rules)))"
proof -
  have a: "required_present r \<and> action r = Some ''deny'' \<longrightarrow>
      scan_rule (Some ''read-only'') st r = (st\<lparr>valid := False\<rparr>, [PermissionDenied])"
    by (simp add: scan_rule_denied)
  obtain rest where rest: "fst (validate_acl_rules (Some ''read-only'') rules)
        = scan_log (Some ''read-only'') rules @ rest" "list_all is_pair_line rest"
    using validate_log_split [of "Some ''read-only''" rules] by blast
  have b: "count_list (fst (validate_acl_rules (Some ''read-only'') rules)) PermissionDenied
       = length (filter (\<lambda>r. required_present r \<and> action r = Some ''deny'') rules)"
    using rest scan_rules_count [of initial_state rules]
    by (simp add: pair_lines_not_denied scan_log_def)
  have c: "(\<exists>r \<in> set rules. required_present r \<and> action r = Some ''deny'') \<longrightarrow>
        \<not> valid (fst (scan_rules (Some ''read-only'') initial_state rules))
        \<and> snd (validate_acl_rules (Some ''read-only'') rules) \<noteq> Inr True"
  proof
    assume "\<exists>r \<in> set rules. required_present r \<and> action r = Some ''deny''"
    then obtain x where x: "x \<in> set rules" "required_present x" "action x = Some ''deny''"
      by blast
    have "\<not> valid (fst (scan_rules (Some ''read-only'') initial_state rules))"
      using x(1)
    proof (rule scan_rules_invalid)
      fix st'
      show "\<not> valid (fst (scan_rule (Some ''read-only'') st' x))"
        using x by (simp add: scan_rule_denied)
    qed
    then show "\<not> valid (fst (scan_rules (Some ''read-only'') initial_state rules))
        \<and> snd (validate_acl_rules (Some ''read-only'') rules) \<noteq> Inr True"
      using validate_True_valid [of "Some ''read-only''" rules] by blast
  qed
  have d: "action r = Some ''permit'' \<longrightarrow> PermissionDenied \<notin> set (snd (scan_rule role st r))"
    using scan_rule_not_deny [of r role st] by auto
  have e: "role \<noteq> Some ''read-only'' \<longrightarrow>
        PermissionDenied \<notin> set (fst (validate_acl_rules role rules))"
  proof
    assume ro: "role \<noteq> Some ''read-only''"
    obtain rest' where rest': "fst (validate_acl_rules role rules) = scan_log role rules @ rest'"
        "list_all is_pair_line rest'"
      using validate_log_split [of role rules] by blast
    show "PermissionDenied \<notin> set (fst (validate_acl_rules role rules))"
      using rest' scan_rules_other_role [OF ro, of initial_state rules]
      by (simp add: pair_lines_no_denied scan_log_def)
  qed
  from a b c d e show ?thesis by blast
qed


text \<open>
  C7. Under the role \<^verbatim>\<open>read-only\<close> a \<^verbatim>\<open>deny\<close> rule produces a permission finding and
  makes the verdict false. The code logs the finding and clears \<^verbatim>\<open>valid\<close>, but it does
  not always return the verdict: on the rule set of the specification's own example
  the loop over all pairs then raises \<^verbatim>\<open>TypeError\<close>, and the validation ends with no
  verdict at all.
\<close>

theorem read_only_deny_raises_without_verdict:
  "validate_acl_rules (Some ''read-only'')
     [\<lparr>acl_number = Some 1, action = Some ''permit'', protocol = Some ''tcp'',
       source = Some ''10.0.0.0/24'', destination = Some ''8.8.8.8'', port = None\<rparr>,
      \<lparr>acl_number = Some 1, action = Some ''deny'', protocol = Some ''tcp'',
       source = Some ''10.0.0.5'', destination = Some ''9.9.9.9'', port = None\<rparr>]
   = ([PermissionDenied], Inl TypeError)"
  by code_simp

lemma scan_rule_seen_mono: "n \<in> seen_acls st \<Longrightarrow> n \<in> seen_acls (fst (scan_rule role st r))"
  by (auto simp add: scan_rule_def Let_def split: option.splits prod.splits if_splits)

lemma scan_rules_seen_mono: "n \<in> seen_acls st \<Longrightarrow> n \<in> seen_acls (fst (scan_rules role st rs))"
proof (induction rs arbitrary: st)
  case Nil
  then show ?case by simp
next
  case (Cons x xs)
  obtain st1 l1 where s1: "scan_rule role st x = (st1, l1)" by (cases "scan_rule role st x")
  obtain st2 l2 where s2: "scan_rules role st1 xs = (st2, l2)" by (cases "scan_rules role st1 xs")
  from scan_rule_seen_mono [OF Cons.prems, of role x] s1 have "n \<in> seen_acls st1" by simp
  from Cons.IH [OF this] s1 s2 show ?case by simp
qed

lemma scan_rule_registers:
  assumes "required_present r" and "acl_number r = Some n"
    and "\<not> (role = Some ''read-only'' \<and> action r = Some ''deny'')"
  shows "n \<in> seen_acls (fst (scan_rule role st r))"
  using assms
  by (auto simp add: scan_rule_def required_present_def Let_def split: option.splits prod.splits)

lemma scan_rules_registers:
  assumes "r \<in> set rs" and "required_present r" and "acl_number r = Some n"
    and "\<not> (role = Some ''read-only'' \<and> action r = Some ''deny'')"
  shows "n \<in> seen_acls (fst (scan_rules role st rs))"
  using assms(1)
proof (induction rs arbitrary: st)
  case Nil
  then show ?case by simp
next
  case (Cons x xs)
  obtain st1 l1 where s1: "scan_rule role st x = (st1, l1)" by (cases "scan_rule role st x")
  obtain st2 l2 where s2: "scan_rules role st1 xs = (st2, l2)" by (cases "scan_rules role st1 xs")
  show ?case
  proof (cases "r = x")
    case True
    with scan_rule_registers [OF assms(2,3,4), of st] s1 have "n \<in> seen_acls st1" by simp
    from scan_rules_seen_mono [OF this, of role xs] s1 s2 show ?thesis by simp
  next
    case False
    with Cons.prems have "r \<in> set xs" by simp
    from Cons.IH [OF this, of st1] s1 s2 show ?thesis by simp
  qed
qed

lemma scan_rule_seen_origin:
  "n \<in> seen_acls (fst (scan_rule role st r)) \<Longrightarrow> n \<in> seen_acls st \<or> acl_number r = Some n"
  by (auto simp add: scan_rule_def Let_def split: option.splits prod.splits if_splits)

lemma scan_rules_seen_origin:
  "n \<in> seen_acls (fst (scan_rules role st rs)) \<Longrightarrow>
   n \<in> seen_acls st \<or> (\<exists>r \<in> set rs. acl_number r = Some n)"
proof (induction rs arbitrary: st)
  case Nil
  then show ?case by simp
next
  case (Cons x xs)
  obtain st1 l1 where s1: "scan_rule role st x = (st1, l1)" by (cases "scan_rule role st x")
  obtain st2 l2 where s2: "scan_rules role st1 xs = (st2, l2)" by (cases "scan_rules role st1 xs")
  from Cons.prems s1 s2 have "n \<in> seen_acls (fst (scan_rules role st1 xs))" by simp
  from Cons.IH [OF this] have "n \<in> seen_acls st1 \<or> (\<exists>r \<in> set xs. acl_number r = Some n)" .
  then show ?case
  proof
    assume "n \<in> seen_acls st1"
    with scan_rule_seen_origin [of n role st x] s1 show ?thesis by auto
  next
    assume "\<exists>r \<in> set xs. acl_number r = Some n"
    then show ?thesis by auto
  qed
qed

lemma scan_rule_duplicate:
  assumes "required_present r" and "acl_number r = Some n"
    and "\<not> (role = Some ''read-only'' \<and> action r = Some ''deny'')"
    and "n \<in> seen_acls st"
  shows "snd (scan_rule role st r) = [DuplicateAcl n] \<and> \<not> valid (fst (scan_rule role st r))"
  using assms
  by (auto simp add: scan_rule_def required_present_def Let_def split: option.splits prod.splits)

lemma scan_rule_first:
  assumes "required_present r" and "acl_number r = Some n"
    and "\<not> (role = Some ''read-only'' \<and> action r = Some ''deny'')"
    and "n \<notin> seen_acls st"
  shows "snd (scan_rule role st r) = []"
  using assms
  by (auto simp add: scan_rule_def required_present_def Let_def split: option.splits prod.splits)

lemma scan_log_take_Suc:
  assumes "j < length rules"
  shows "scan_log role (take (Suc j) rules)
           = scan_log role (take j rules)
             @ snd (scan_rule role (fst (scan_rules role initial_state (take j rules))) (rules ! j))"
  using assms
  by (simp add: scan_log_def take_Suc_conv_app_nth scan_rules_append split: prod.splits)

lemma scan_log_drop:
  "scan_log role rules
     = scan_log role (take k rules)
       @ snd (scan_rules role (fst (scan_rules role initial_state (take k rules))) (drop k rules))"
proof -
  have "scan_rules role initial_state rules
          = scan_rules role initial_state (take k rules @ drop k rules)" by simp
  then show ?thesis
    unfolding scan_log_def scan_rules_append by (simp split: prod.splits)
qed

lemma scan_rules_valid_drop:
  assumes "valid (fst (scan_rules role initial_state rules))"
  shows "valid (fst (scan_rules role initial_state (take k rules)))"
proof -
  have "scan_rules role initial_state rules
          = scan_rules role initial_state (take k rules @ drop k rules)" by simp
  with assms
  have "valid (fst (scan_rules role (fst (scan_rules role initial_state (take k rules)))
                 (drop k rules)))"
    unfolding scan_rules_append by (simp split: prod.splits)
  then show ?thesis by (rule scan_rules_valid)
qed


text \<open>
  C5. Two rules at positions \<open>i < j\<close> carry the same number \<open>n\<close> and their required
  keys, and neither is a \<^verbatim>\<open>deny\<close> rule under the role \<^verbatim>\<open>read-only\<close> (such a rule is
  skipped before the duplicate check). Then the iteration for rule \<open>j\<close> logs exactly one
  line, the duplicate line for \<open>n\<close>; that line is in the log of the validation;
  \<^verbatim>\<open>valid\<close> is cleared and the validation does not return \<open>True\<close>. If no rule before
  \<open>i\<close> carries \<open>n\<close>, the iteration for rule \<open>i\<close> logs nothing.
\<close>

theorem duplicate_acl_on_second_occurrence:
  assumes "i < j" and "j < length rules"
    and "acl_number (rules ! i) = Some n" and "acl_number (rules ! j) = Some n"
    and "required_present (rules ! i)" and "required_present (rules ! j)"
    and "\<not> (role = Some ''read-only'' \<and> action (rules ! i) = Some ''deny'')"
    and "\<not> (role = Some ''read-only'' \<and> action (rules ! j) = Some ''deny'')"
  shows "scan_log role (take (Suc j) rules) = scan_log role (take j rules) @ [DuplicateAcl n]
    \<and> (\<exists>rest. fst (validate_acl_rules role rules)
                 = scan_log role (take j rules) @ [DuplicateAcl n] @ rest)
    \<and> \<not> valid (fst (scan_rules role initial_state rules))
    \<and> snd (validate_acl_rules role rules) \<noteq> Inr True
    \<and> ((\<forall>k<i. acl_number (rules ! k) \<noteq> Some n) \<longrightarrow>
         scan_log role (take (Suc i) rules) = scan_log role (take i rules))"
proof -
  let ?stj = "fst (scan_rules role initial_state (take j rules))"
  let ?sti = "fst (scan_rules role initial_state (take i rules))"
  have "rules ! i \<in> set (take j rules)"
    using assms(1,2) by (auto simp add: in_set_conv_nth intro!: exI [of _ i])
  then have seen: "n \<in> seen_acls ?stj"
    using assms(5,3,7) by (rule scan_rules_registers)
  have step: "snd (scan_rule role ?stj (rules ! j)) = [DuplicateAcl n]
              \<and> \<not> valid (fst (scan_rule role ?stj (rules ! j)))"
    using assms(6,4,8) seen by (rule scan_rule_duplicate)
  have a: "scan_log role (take (Suc j) rules) = scan_log role (take j rules) @ [DuplicateAcl n]"
    using scan_log_take_Suc [OF assms(2), of role] step by simp
  have "scan_log role rules
          = scan_log role (take (Suc j) rules)
            @ snd (scan_rules role (fst (scan_rules role initial_state (take (Suc j) rules)))
                    (drop (Suc j) rules))"
    by (rule scan_log_drop)
  with a validate_log_split [of role rules]
  have b: "\<exists>rest. fst (validate_acl_rules role rules)
                 = scan_log role (take j rules) @ [DuplicateAcl n] @ rest"
    by auto
  have "\<not> valid (fst (scan_rules role initial_state (take (Suc j) rules)))"
    using assms(2) step
    by (auto simp add: take_Suc_conv_app_nth scan_rules_append split: prod.splits)
  then have c: "\<not> valid (fst (scan_rules role initial_state rules))"
    using scan_rules_valid_drop [of role rules "Suc j"] by blast
  then have d: "snd (validate_acl_rules role rules) \<noteq> Inr True"
    using validate_True_valid [of role rules] by blast
  have e: "(\<forall>k<i. acl_number (rules ! k) \<noteq> Some n) \<longrightarrow>
         scan_log role (take (Suc i) rules) = scan_log role (take i rules)"
  proof
    assume first: "\<forall>k<i. acl_number (rules ! k) \<noteq> Some n"
    have "n \<notin> seen_acls ?sti"
    proof
      assume "n \<in> seen_acls ?sti"
      from scan_rules_seen_origin [OF this]
      obtain r where r: "r \<in> set (take i rules)" "acl_number r = Some n"
        by (auto simp add: initial_state_def)
      then obtain k where "k < i" "k < length rules" "r = rules ! k"
        by (auto simp add: in_set_conv_nth)
      with first r show False by auto
    qed
    with assms(5,3,7) have "snd (scan_rule role ?sti (rules ! i)) = []"
      by (rule scan_rule_first)
    moreover have "i < length rules" using assms(1,2) by simp
    ultimately show "scan_log role (take (Suc i) rules) = scan_log role (take i rules)"
      using scan_log_take_Suc [of i rules role] by simp
  qed
  from a b c d e show ?thesis by blast
qed

theorem duplicate_acl_on_second_occurrence_witness:
  "scan_log (Some ''read-write'')
     [\<lparr>acl_number = Some 1, action = Some ''permit'', protocol = Some ''tcp'',
       source = Some ''10.0.0.0/24'', destination = Some ''8.8.8.8'', port = None\<rparr>,
      \<lparr>acl_number = Some 1, action = Some ''deny'', protocol = Some ''udp'',
       source = Some ''10.0.1.0/24'', destination = Some ''9.9.9.9'', port = None\<rparr>]
     = [DuplicateAcl 1]
   \<and> scan_log (Some ''read-write'')
       [\<lparr>acl_number = Some 1, action = Some ''permit'', protocol = Some ''tcp'',
         source = Some ''10.0.0.0/24'', destination = Some ''8.8.8.8'', port = None\<rparr>]
       = []
   \<and> snd (validate_acl_rules (Some ''read-write'')
       [\<lparr>acl_number = Some 1, action = Some ''permit'', protocol = Some ''tcp'',
         source = Some ''10.0.0.0/24'', destination = Some ''8.8.8.8'', port = None\<rparr>,
        \<lparr>acl_number = Some 1, action = Some ''deny'', protocol = Some ''udp'',
         source = Some ''10.0.1.0/24'', destination = Some ''9.9.9.9'', port = None\<rparr>])
       \<noteq> Inr True"
  using duplicate_acl_on_second_occurrence
    [of 0 1
        "[\<lparr>acl_number = Some 1, action = Some ''permit'', protocol = Some ''tcp'',
          source = Some ''10.0.0.0/24'', destination = Some ''8.8.8.8'', port = None\<rparr>,
         \<lparr>acl_number = Some 1, action = Some ''deny'', protocol = Some ''udp'',
          source = Some ''10.0.1.0/24'', destination = Some ''9.9.9.9'', port = None\<rparr>]"
        1 "Some ''read-write''"]
  by (simp add: required_present_def scan_log_def)

text \<open>
  As C5 is worded, for any role, it fails: under \<^verbatim>\<open>read-only\<close> a second occurrence that
  is a \<^verbatim>\<open>deny\<close> rule is reported as a permission failure and not as a duplicate.
\<close>

theorem duplicate_acl_skipped_for_read_only_deny:
  "validate_acl_rules (Some ''read-only'')
     [\<lparr>acl_number = Some 1, action = Some ''permit'', protocol = Some ''tcp'',
       source = Some ''10.0.0.0/24'', destination = Some ''8.8.8.8'', port = None\<rparr>,
      \<lparr>acl_number = Some 1, action = Some ''deny'', protocol = Some ''udp'',
       source = Some ''10.0.1.0/24'', destination = Some ''9.9.9.9'', port = None\<rparr>]
   = ([PermissionDenied], Inr False)"
  by code_simp

text \<open>
  C1. For every rule set with fields of the types of the data model, validation returns
  a verdict and never raises. The code raises on the rule set of the specification's
  own example: a range and a single address under one protocol. The permit/deny loop
  calls \<^verbatim>\<open>check_overlap\<close> on them, which raises \<^verbatim>\<open>TypeError\<close> after the duplicate
  number has been logged, and no verdict is returned.
\<close>

theorem validate_acl_rules_raises:
  "validate_acl_rules (Some ''read-write'')
     [\<lparr>acl_number = Some 1, action = Some ''permit'', protocol = Some ''tcp'',
       source = Some ''10.0.0.0/24'', destination = Some ''8.8.8.8'', port = None\<rparr>,
      \<lparr>acl_number = Some 1, action = Some ''deny'', protocol = Some ''tcp'',
       source = Some ''10.0.0.5'', destination = Some ''9.9.9.9'', port = None\<rparr>]
   = ([DuplicateAcl 1], Inl TypeError)"
  by code_simp

lemma scan_rule_permit_rules:
  "p \<in> set (permit_rules (fst (scan_rule role st r))) \<Longrightarrow>
   p \<in> set (permit_rules st) \<or> (p = r \<and> action r = Some ''permit'')"
  by (auto simp add: scan_rule_def Let_def split: option.splits prod.splits if_splits)

lemma scan_rule_deny_rules:
  "d \<in> set (deny_rules (fst (scan_rule role st r))) \<Longrightarrow>
   d \<in> set (deny_rules st) \<or> (d = r \<and> action r = Some ''deny'')"
  by (auto simp add: scan_rule_def Let_def split: option.splits prod.splits if_splits)

lemma scan_rules_permit_rules:
  "p \<in> set (permit_rules (fst (scan_rules role st rs))) \<Longrightarrow>
   p \<in> set (permit_rules st) \<or> (p \<in> set rs \<and> action p = Some ''permit'')"
proof (induction rs arbitrary: st)
  case Nil
  then show ?case by simp
next
  case (Cons x xs)
  obtain st1 l1 where s1: "scan_rule role st x = (st1, l1)" by (cases "scan_rule role st x")
  obtain st2 l2 where s2: "scan_rules role st1 xs = (st2, l2)" by (cases "scan_rules role st1 xs")
  from Cons.prems s1 s2 have "p \<in> set (permit_rules (fst (scan_rules role st1 xs)))" by simp
  from Cons.IH [OF this]
  have "p \<in> set (permit_rules st1) \<or> (p \<in> set xs \<and> action p = Some ''permit'')" .
  then show ?case
  proof
    assume "p \<in> set (permit_rules st1)"
    with scan_rule_permit_rules [of p role st x] s1 show ?thesis by auto
  next
    assume "p \<in> set xs \<and> action p = Some ''permit''"
    then show ?thesis by simp
  qed
qed

lemma scan_rules_deny_rules:
  "d \<in> set (deny_rules (fst (scan_rules role st rs))) \<Longrightarrow>
   d \<in> set (deny_rules st) \<or> (d \<in> set rs \<and> action d = Some ''deny'')"
proof (induction rs arbitrary: st)
  case Nil
  then show ?case by simp
next
  case (Cons x xs)
  obtain st1 l1 where s1: "scan_rule role st x = (st1, l1)" by (cases "scan_rule role st x")
  obtain st2 l2 where s2: "scan_rules role st1 xs = (st2, l2)" by (cases "scan_rules role st1 xs")
  from Cons.prems s1 s2 have "d \<in> set (deny_rules (fst (scan_rules role st1 xs)))" by simp
  from Cons.IH [OF this]
  have "d \<in> set (deny_rules st1) \<or> (d \<in> set xs \<and> action d = Some ''deny'')" .
  then show ?case
  proof
    assume "d \<in> set (deny_rules st1)"
    with scan_rule_deny_rules [of d role st x] s1 show ?thesis by auto
  next
    assume "d \<in> set xs \<and> action d = Some ''deny''"
    then show ?thesis by simp
  qed
qed

lemma scan_rule_quiet:
  assumes "required_present r" and "acl_number r = Some n" and "n \<notin> seen_acls st"
    and "\<not> (role = Some ''read-only'' \<and> action r = Some ''deny'')"
  shows "snd (scan_rule role st r) = []
         \<and> valid (fst (scan_rule role st r)) = valid st
         \<and> seen_acls (fst (scan_rule role st r)) = insert n (seen_acls st)"
  using assms
  by (auto simp add: scan_rule_def required_present_def Let_def split: option.splits prod.splits)

lemma scan_rules_quiet:
  assumes "\<forall>r \<in> set rs. required_present r"
    and "distinct (map acl_number rs)"
    and "\<forall>r \<in> set rs. \<forall>n. acl_number r = Some n \<longrightarrow> n \<notin> seen_acls st"
    and "\<forall>r \<in> set rs. \<not> (role = Some ''read-only'' \<and> action r = Some ''deny'')"
  shows "snd (scan_rules role st rs) = [] \<and> valid (fst (scan_rules role st rs)) = valid st"
  using assms
proof (induction rs arbitrary: st)
  case Nil
  then show ?case by simp
next
  case (Cons x xs)
  obtain st1 l1 where s1: "scan_rule role st x = (st1, l1)" by (cases "scan_rule role st x")
  obtain st2 l2 where s2: "scan_rules role st1 xs = (st2, l2)" by (cases "scan_rules role st1 xs")
  from Cons.prems(1) obtain n where n: "acl_number x = Some n"
    by (auto simp add: required_present_def)
  have q: "snd (scan_rule role st x) = []
         \<and> valid (fst (scan_rule role st x)) = valid st
         \<and> seen_acls (fst (scan_rule role st x)) = insert n (seen_acls st)"
    using Cons.prems n by (intro scan_rule_quiet) auto
  have fresh: "\<forall>r \<in> set xs. \<forall>m. acl_number r = Some m \<longrightarrow> m \<notin> seen_acls st1"
  proof (intro ballI allI impI)
    fix r m assume r: "r \<in> set xs" and m: "acl_number r = Some m"
    from Cons.prems(3) r m have "m \<notin> seen_acls st" by auto
    moreover have "m \<noteq> n"
    proof
      assume "m = n"
      with m n r have "acl_number x \<in> set (map acl_number xs)" by force
      with Cons.prems(2) show False by simp
    qed
    ultimately show "m \<notin> seen_acls st1" using q s1 by simp
  qed
  have "snd (scan_rules role st1 xs) = [] \<and> valid (fst (scan_rules role st1 xs)) = valid st1"
    using Cons.prems fresh by (intro Cons.IH) auto
  with q s1 s2 show ?case by simp
qed

text \<open>The pairwise loops on pairs whose condition is false without a log line.\<close>

lemma for_each_silent:
  assumes "\<And>x. x \<in> set xs \<Longrightarrow> body x v = ([], Inr v)"
  shows "for_each xs body v = ([], Inr v)"
  using assms by (induction xs) simp_all

lemma conflict_scan_silent:
  assumes "\<And>p d. p \<in> set ps \<Longrightarrow> d \<in> set ds \<Longrightarrow>
             same_protocol_and_overlap p d = ([], Inr False)"
  shows "conflict_scan ps ds v = ([], Inr v)"
  unfolding conflict_scan_def
  by (intro for_each_silent) (simp add: conflict_body_def assms)

lemma overlap_scan_silent:
  assumes "\<And>i j. i < j \<Longrightarrow> j < length rules \<Longrightarrow>
             same_protocol_and_overlap (rules ! i) (rules ! j) = ([], Inr False)"
  shows "overlap_scan rules v = ([], Inr v)"
  unfolding overlap_scan_def
  by (intro for_each_silent) (simp add: overlap_body_def assms)

lemma disjoint_pair_silent:
  assumes "protocol ra = Some pa" and "protocol rb = Some pb"
    and "source ra = Some sa" and "destination ra = Some da"
    and "source rb = Some sb" and "destination rb = Some db"
    and "pa = pb \<longrightarrow>
           CHR ''/'' \<in> set sa \<and> CHR ''/'' \<in> set sb
           \<and> (\<exists>a b. ip_network sa = Some a \<and> ip_network sb = Some b
                  \<and> (\<forall>v x. \<not> (in_network a v x \<and> in_network b v x)))"
  shows "same_protocol_and_overlap ra rb = ([], Inr False)
         \<and> same_protocol_and_overlap rb ra = ([], Inr False)"
proof (cases "pa = pb")
  case False
  with assms(1-6) show ?thesis
    by (auto simp add: same_protocol_and_overlap_def getitem_def)
next
  case True
  with assms(7) obtain a b where ab: "CHR ''/'' \<in> set sa" "CHR ''/'' \<in> set sb"
      "ip_network sa = Some a" "ip_network sb = Some b"
      "\<forall>v x. \<not> (in_network a v x \<and> in_network b v x)"
    by blast
  from ab(5) have ba: "\<forall>v x. \<not> (in_network b v x \<and> in_network a v x)" by blast
  have "check_overlap sa da sb db = ([], Inr False)"
    using ab by (rule check_overlap_disjoint)
  moreover have "check_overlap sb db sa da = ([], Inr False)"
    using ab(2,1,4,3) ba by (rule check_overlap_disjoint)
  ultimately show ?thesis
    using True assms(1-6) by (simp add: same_protocol_and_overlap_def getitem_def)
qed

text \<open>
  C4. Every rule has its five keys, no two rules carry the same number, no rule is a
  \<^verbatim>\<open>deny\<close> rule while the role is \<^verbatim>\<open>read-only\<close>, and for every two rules with the same
  protocol both sources are CIDR ranges (they contain \<^verbatim>\<open>/\<close> and parse as networks) whose
  blocks share no address. Then the validation returns \<open>True\<close> and logs nothing.
\<close>

theorem validate_accepts_clean_rule_set:
  assumes "\<forall>r \<in> set rules. acl_number r \<noteq> None \<and> action r \<noteq> None \<and> protocol r \<noteq> None
                            \<and> source r \<noteq> None \<and> destination r \<noteq> None"
    and "distinct (map acl_number rules)"
    and "role = Some ''read-only'' \<longrightarrow> (\<forall>r \<in> set rules. action r \<noteq> Some ''deny'')"
    and "\<forall>i j si sj. i < j \<and> j < length rules
           \<and> protocol (rules ! i) = protocol (rules ! j)
           \<and> source (rules ! i) = Some si \<and> source (rules ! j) = Some sj \<longrightarrow>
           CHR ''/'' \<in> set si \<and> CHR ''/'' \<in> set sj
           \<and> (\<exists>a b. ip_network si = Some a \<and> ip_network sj = Some b
                  \<and> (\<forall>v x. \<not> (in_network a v x \<and> in_network b v x)))"
  shows "validate_acl_rules role rules = ([], Inr True)"
proof -
  have both: "same_protocol_and_overlap (rules ! i) (rules ! j) = ([], Inr False)
              \<and> same_protocol_and_overlap (rules ! j) (rules ! i) = ([], Inr False)"
    if ij: "i < j" "j < length rules" for i j
  proof -
    from ij have mi: "rules ! i \<in> set rules" and mj: "rules ! j \<in> set rules" by simp_all
    from assms(1) mi obtain pa sa da where
        ri: "protocol (rules ! i) = Some pa" "source (rules ! i) = Some sa"
            "destination (rules ! i) = Some da" by auto
    from assms(1) mj obtain pb sb db where
        rj: "protocol (rules ! j) = Some pb" "source (rules ! j) = Some sb"
            "destination (rules ! j) = Some db" by auto
    have "pa = pb \<longrightarrow>
           CHR ''/'' \<in> set sa \<and> CHR ''/'' \<in> set sb
           \<and> (\<exists>a b. ip_network sa = Some a \<and> ip_network sb = Some b
                  \<and> (\<forall>v x. \<not> (in_network a v x \<and> in_network b v x)))"
    proof
      assume "pa = pb"
      with ij ri rj have "i < j \<and> j < length rules
           \<and> protocol (rules ! i) = protocol (rules ! j)
           \<and> source (rules ! i) = Some sa \<and> source (rules ! j) = Some sb" by simp
      with assms(4) show "CHR ''/'' \<in> set sa \<and> CHR ''/'' \<in> set sb
           \<and> (\<exists>a b. ip_network sa = Some a \<and> ip_network sb = Some b
                  \<and> (\<forall>v x. \<not> (in_network a v x \<and> in_network b v x)))" by blast
    qed
    with ri rj show ?thesis
      by (intro disjoint_pair_silent [of _ pa _ pb sa da sb db]) simp_all
  qed
  obtain st l1 where s: "scan_rules role initial_state rules = (st, l1)"
    by (cases "scan_rules role initial_state rules")
  have "snd (scan_rules role initial_state rules) = []
        \<and> valid (fst (scan_rules role initial_state rules)) = valid initial_state"
    using assms(1,2,3)
    by (intro scan_rules_quiet) (auto simp add: required_present_def initial_state_def)
  with s have l1: "l1 = []" and v: "valid st" by (simp_all add: initial_state_def)
  have pairs: "same_protocol_and_overlap p d = ([], Inr False)"
    if "p \<in> set (permit_rules st)" and "d \<in> set (deny_rules st)" for p d
  proof -
    from scan_rules_permit_rules [of p role initial_state rules] s that(1)
    have p: "p \<in> set rules" "action p = Some ''permit''" by (auto simp add: initial_state_def)
    from scan_rules_deny_rules [of d role initial_state rules] s that(2)
    have d: "d \<in> set rules" "action d = Some ''deny''" by (auto simp add: initial_state_def)
    from p(1) obtain i where i: "i < length rules" "rules ! i = p" by (auto simp add: in_set_conv_nth)
    from d(1) obtain j where j: "j < length rules" "rules ! j = d" by (auto simp add: in_set_conv_nth)
    from p(2) d(2) i j have "i \<noteq> j" by auto
    then consider "i < j" | "j < i" by linarith
    then show ?thesis
    proof cases
      case 1
      with both [of i j] i j show ?thesis by simp
    next
      case 2
      with both [of j i] i j show ?thesis by simp
    qed
  qed
  have c: "conflict_scan (permit_rules st) (deny_rules st) (valid st) = ([], Inr (valid st))"
    using pairs by (rule conflict_scan_silent)
  have o: "overlap_scan rules (valid st) = ([], Inr (valid st))"
    using both by (intro overlap_scan_silent) simp
  from s l1 v c o show ?thesis
    by (simp add: validate_acl_rules_def)
qed

theorem validate_accepts_clean_rule_set_witness:
  "validate_acl_rules (Some ''read-write'')
     [\<lparr>acl_number = Some 1, action = Some ''permit'', protocol = Some ''tcp'',
       source = Some ''10.0.0.1/32'', destination = Some ''8.8.8.8'', port = None\<rparr>,
      \<lparr>acl_number = Some 2, action = Some ''permit'', protocol = Some ''tcp'',
       source = Some ''10.0.0.2/32'', destination = Some ''8.8.8.8'', port = None\<rparr>]
   = ([], Inr True)"
proof -
  let ?a = "\<lparr>acl_number = Some 1, action = Some ''permit'', protocol = Some ''tcp'',
       source = Some ''10.0.0.1/32'', destination = Some ''8.8.8.8'', port = None\<rparr>"
  let ?b = "\<lparr>acl_number = Some 2, action = Some ''permit'', protocol = Some ''tcp'',
       source = Some ''10.0.0.2/32'', destination = Some ''8.8.8.8'', port = None\<rparr>"
  have na: "ip_network ''10.0.0.1/32'' = Some (Network 4 167772161 4294967295 32)"
    by code_simp
  have nb: "ip_network ''10.0.0.2/32'' = Some (Network 4 167772162 4294967295 32)"
    by code_simp
  have ba: "broadcast_address (Network 4 167772161 4294967295 32) = 167772161"
    by code_simp
  have bb: "broadcast_address (Network 4 167772162 4294967295 32) = 167772162"
    by code_simp
  have disj: "\<forall>v x. \<not> (in_network (Network 4 167772161 4294967295 32) v x
                        \<and> in_network (Network 4 167772162 4294967295 32) v x)"
    by (simp add: in_network_def ba bb)
  have h1: "\<forall>r \<in> set [?a, ?b]. acl_number r \<noteq> None \<and> action r \<noteq> None \<and> protocol r \<noteq> None
                            \<and> source r \<noteq> None \<and> destination r \<noteq> None"
    by simp
  have h2: "distinct (map acl_number [?a, ?b])"
    by simp
  have h3: "Some ''read-write'' = Some ''read-only'' \<longrightarrow>
            (\<forall>r \<in> set [?a, ?b]. action r \<noteq> Some ''deny'')"
    by simp
  have h4: "\<forall>i j si sj. i < j \<and> j < length [?a, ?b]
           \<and> protocol ([?a, ?b] ! i) = protocol ([?a, ?b] ! j)
           \<and> source ([?a, ?b] ! i) = Some si \<and> source ([?a, ?b] ! j) = Some sj \<longrightarrow>
           CHR ''/'' \<in> set si \<and> CHR ''/'' \<in> set sj
           \<and> (\<exists>a b. ip_network si = Some a \<and> ip_network sj = Some b
                  \<and> (\<forall>v x. \<not> (in_network a v x \<and> in_network b v x)))"
  proof (intro allI impI)
    fix i j :: nat and si sj :: string
    assume h: "i < j \<and> j < length [?a, ?b]
           \<and> protocol ([?a, ?b] ! i) = protocol ([?a, ?b] ! j)
           \<and> source ([?a, ?b] ! i) = Some si \<and> source ([?a, ?b] ! j) = Some sj"
    then have "i = 0" and "j = 1" by auto
    with h have "si = ''10.0.0.1/32''" and "sj = ''10.0.0.2/32''" by auto
    with na nb disj
    show "CHR ''/'' \<in> set si \<and> CHR ''/'' \<in> set sj
           \<and> (\<exists>a b. ip_network si = Some a \<and> ip_network sj = Some b
                  \<and> (\<forall>v x. \<not> (in_network a v x \<and> in_network b v x)))"
      by simp
  qed
  from validate_accepts_clean_rule_set [OF h1 h2 h3 h4] show ?thesis .
qed

text \<open>
  As C4 is worded, for either role, it fails: a rule set of one \<^verbatim>\<open>deny\<close> rule has no
  pairs at all and is rejected under \<^verbatim>\<open>read-only\<close>.
\<close>

theorem validate_false_for_read_only_deny:
  "validate_acl_rules (Some ''read-only'')
     [\<lparr>acl_number = Some 1, action = Some ''deny'', protocol = Some ''tcp'',
       source = Some ''10.0.0.1/32'', destination = Some ''8.8.8.8'', port = None\<rparr>]
   = ([PermissionDenied], Inr False)"
  by code_simp

text \<open>
  C6. A rule without the key \<^verbatim>\<open>protocol\<close> is reported as a missing-field finding and
  the validation still completes. The code does not complete: the loop over all pairs
  runs over the whole rule set, the rule without the key included, and its lookup
  \<^verbatim>\<open>rules[i]['protocol']\<close> raises \<^verbatim>\<open>KeyError\<close> at the first pair.
\<close>

theorem missing_protocol_raises_key_error:
  "validate_acl_rules (Some ''read-write'')
     [\<lparr>acl_number = Some 1, action = Some ''permit'', protocol = None,
       source = Some ''10.0.0.0/24'', destination = Some ''8.8.8.8'', port = None\<rparr>,
      \<lparr>acl_number = Some 2, action = Some ''permit'', protocol = Some ''tcp'',
       source = Some ''10.0.1.0/24'', destination = Some ''9.9.9.9'', port = None\<rparr>]
   = ([MissingFields
         \<lparr>acl_number = Some 1, action = Some ''permit'', protocol = None,
          source = Some ''10.0.0.0/24'', destination = Some ''8.8.8.8'', port = None\<rparr>],
      Inl (KeyError ''protocol''))"
  by code_simp

text \<open>A loop that ends without an exception has run its body on every element.\<close>

lemma for_each_member:
  assumes "for_each xs body v = (l, Inr v')" and "x \<in> set xs"
  shows "\<exists>w lx w'. body x w = (lx, Inr w') \<and> set lx \<subseteq> set l"
  using assms
proof (induction xs arbitrary: v l)
  case Nil
  then show ?case by simp
next
  case (Cons y ys)
  obtain l1 r1 where b: "body y v = (l1, r1)" by (cases "body y v")
  from Cons.prems(1) b obtain v1 where r1: "r1 = Inr v1"
    by (cases r1) auto
  obtain l2 r2 where f: "for_each ys body v1 = (l2, r2)" by (cases "for_each ys body v1")
  from Cons.prems(1) b r1 f have l: "l = l1 @ l2" and r2: "r2 = Inr v'" by auto
  show ?case
  proof (cases "x = y")
    case True
    with b r1 l show ?thesis by auto
  next
    case False
    with Cons.prems(2) have "x \<in> set ys" by simp
    from Cons.IH [OF _ this, of v1 l2] f r2
    obtain w lx w' where "body x w = (lx, Inr w')" "set lx \<subseteq> set l2" by auto
    with l show ?thesis by auto
  qed
qed

lemma overlap_scan_reports:
  assumes "overlap_scan rules v = (l, Inr v')" and "i < j" and "j < length rules"
    and "snd (same_protocol_and_overlap (rules ! i) (rules ! j)) = Inr True"
  shows "Overlapping (rules ! i) (rules ! j) \<in> set l"
proof -
  have "i \<in> set [0 ..< length rules]" using assms(2,3) by simp
  from for_each_member [OF assms(1) [unfolded overlap_scan_def] this]
  obtain w lx w' where inner:
      "for_each [i + 1 ..< length rules] (\<lambda>j. overlap_body rules i j) w = (lx, Inr w')"
    and lx: "set lx \<subseteq> set l" by auto
  have "j \<in> set [i + 1 ..< length rules]" using assms(2,3) by simp
  from for_each_member [OF inner this]
  obtain w2 ly w2' where body: "overlap_body rules i j w2 = (ly, Inr w2')"
    and ly: "set ly \<subseteq> set lx" by auto
  obtain l0 where "same_protocol_and_overlap (rules ! i) (rules ! j) = (l0, Inr True)"
    using assms(4) by (cases "same_protocol_and_overlap (rules ! i) (rules ! j)") auto
  with body have "Overlapping (rules ! i) (rules ! j) \<in> set ly"
    by (auto simp add: overlap_body_def)
  with ly lx show ?thesis by auto
qed

text \<open>
  When the validation returns a verdict, every pair of rules whose condition is true
  has its overlap line in the log, whatever was found before it.
\<close>

lemma validate_reports_every_overlap:
  assumes "snd (validate_acl_rules role rules) = Inr v" and "i < j" and "j < length rules"
    and "snd (same_protocol_and_overlap (rules ! i) (rules ! j)) = Inr True"
  shows "Overlapping (rules ! i) (rules ! j) \<in> set (fst (validate_acl_rules role rules))"
proof -
  obtain st l1 where s: "scan_rules role initial_state rules = (st, l1)"
    by (cases "scan_rules role initial_state rules")
  obtain l2 r2 where c: "conflict_scan (permit_rules st) (deny_rules st) (valid st) = (l2, r2)"
    by (cases "conflict_scan (permit_rules st) (deny_rules st) (valid st)")
  from assms(1) s c obtain v2 where r2: "r2 = Inr v2"
    by (cases r2) (auto simp add: validate_acl_rules_def)
  obtain l3 r3 where ov: "overlap_scan rules v2 = (l3, r3)" by (cases "overlap_scan rules v2")
  from assms(1) s c r2 ov have r3: "r3 = Inr v" by (simp add: validate_acl_rules_def)
  from overlap_scan_reports [OF ov [unfolded r3] assms(2,3,4)]
  have "Overlapping (rules ! i) (rules ! j) \<in> set l3" .
  with s c r2 ov show ?thesis by (simp add: validate_acl_rules_def)
qed

text \<open>
  C8. One validation examines every pair of rules, whatever failed before. The code
  stops at the first exception: with a rule without the key \<^verbatim>\<open>protocol\<close> in front,
  the overlap of the two rules behind it is never examined nor reported, although
  the same two rules alone are reported as overlapping.
\<close>

theorem overlap_scan_aborted_after_missing_field:
  "validate_acl_rules (Some ''read-write'')
     [\<lparr>acl_number = Some 1, action = Some ''permit'', protocol = None,
       source = Some ''192.168.0.0/24'', destination = Some ''8.8.8.8'', port = None\<rparr>,
      \<lparr>acl_number = Some 2, action = Some ''permit'', protocol = Some ''tcp'',
       source = Some ''10.0.0.0/24'', destination = Some ''9.9.9.9'', port = None\<rparr>,
      \<lparr>acl_number = Some 3, action = Some ''permit'', protocol = Some ''tcp'',
       source = Some ''10.0.0.128/25'', destination = Some ''9.9.9.9'', port = None\<rparr>]
   = ([MissingFields
         \<lparr>acl_number = Some 1, action = Some ''permit'', protocol = None,
          source = Some ''192.168.0.0/24'', destination = Some ''8.8.8.8'', port = None\<rparr>],
      Inl (KeyError ''protocol''))
   \<and> validate_acl_rules (Some ''read-write'')
     [\<lparr>acl_number = Some 2, action = Some ''permit'', protocol = Some ''tcp'',
       source = Some ''10.0.0.0/24'', destination = Some ''9.9.9.9'', port = None\<rparr>,
      \<lparr>acl_number = Some 3, action = Some ''permit'', protocol = Some ''tcp'',
       source = Some ''10.0.0.128/25'', destination = Some ''9.9.9.9'', port = None\<rparr>]
   = ([Overlapping
         \<lparr>acl_number = Some 2, action = Some ''permit'', protocol = Some ''tcp'',
          source = Some ''10.0.0.0/24'', destination = Some ''9.9.9.9'', port = None\<rparr>
         \<lparr>acl_number = Some 3, action = Some ''permit'', protocol = Some ''tcp'',
          source = Some ''10.0.0.128/25'', destination = Some ''9.9.9.9'', port = None\<rparr>],
      Inr False)"
  by code_simp

section \<open>Properties of configure\_acls\<close>

lemma list_all_is_logged_map: "list_all is_logged (map Logged l)"
  by (induction l) auto

text \<open>
  C9. When the validation returns \<open>False\<close>, \<^verbatim>\<open>configure_acls\<close> logs that it aborts and
  returns: what can be observed of the run is the log of the validation followed by
  that line, with no call on the device, no backup and no command built or printed.
\<close>

theorem configure_acls_gated_by_validation:
  assumes "snd (validate_acl_rules role rules) = Inr False"
  shows "configure_acls role net dev rules dry_run
           = (map Logged (fst (validate_acl_rules role rules)) @ [Logged ValidationFailed], Inr ())
         \<and> list_all is_logged (fst (configure_acls role net dev rules dry_run))"
proof -
  obtain l where v: "validate_acl_rules role rules = (l, Inr False)"
    using assms by (cases "validate_acl_rules role rules") auto
  then show ?thesis
    by (simp add: configure_acls_def list_all_is_logged_map)
qed

theorem configure_acls_gated_by_validation_witness:
  "snd (validate_acl_rules (Some ''read-only'')
      [\<lparr>acl_number = Some 1, action = Some ''deny'', protocol = Some ''tcp'',
        source = Some ''10.0.0.0/24'', destination = Some ''8.8.8.8'', port = None\<rparr>]) = Inr False
   \<and> configure_acls (Some ''read-only'') (\<lambda>c. Some ''ok'') \<lparr>host = Some ''r1''\<rparr>
      [\<lparr>acl_number = Some 1, action = Some ''deny'', protocol = Some ''tcp'',
        source = Some ''10.0.0.0/24'', destination = Some ''8.8.8.8'', port = None\<rparr>] False
     = ([Logged PermissionDenied, Logged ValidationFailed], Inr ())"
proof -
  have h: "validate_acl_rules (Some ''read-only'')
      [\<lparr>acl_number = Some 1, action = Some ''deny'', protocol = Some ''tcp'',
        source = Some ''10.0.0.0/24'', destination = Some ''8.8.8.8'', port = None\<rparr>]
      = ([PermissionDenied], Inr False)"
    by code_simp
  then have h': "snd (validate_acl_rules (Some ''read-only'')
      [\<lparr>acl_number = Some 1, action = Some ''deny'', protocol = Some ''tcp'',
        source = Some ''10.0.0.0/24'', destination = Some ''8.8.8.8'', port = None\<rparr>]) = Inr False"
    by simp
  show ?thesis
    using configure_acls_gated_by_validation [OF h', of "\<lambda>c. Some ''ok''" "\<lparr>host = Some ''r1''\<rparr>" False]
      h
    by simp
qed

text \<open>An exception of the validation leaves \<^verbatim>\<open>configure_acls\<close> before any call as well.\<close>

lemma configure_acls_raises_with_validation:
  assumes "snd (validate_acl_rules role rules) = Inl e"
  shows "configure_acls role net dev rules dry_run
           = (map Logged (fst (validate_acl_rules role rules)), Inl e)"
proof -
  obtain l where v: "validate_acl_rules role rules = (l, Inl e)"
    using assms by (cases "validate_acl_rules role rules") auto
  then show ?thesis
    by (simp add: configure_acls_def)
qed

end
